theory Spec2Isabelle
  imports Main
begin

section \<open>Python strings\<close>

text \<open>
  A Python \<open>str\<close> is modelled as a \<open>string\<close> whose characters are the code points below
  256. The helpers below are the \<open>str\<close> methods that \<open>app.py\<close> and \<open>urllib.parse\<close> call.
\<close>

definition startswith :: "string \<Rightarrow> string \<Rightarrow> bool" where
  "startswith s p = (take (length p) s = p)"

definition endswith :: "string \<Rightarrow> string \<Rightarrow> bool" where
  "endswith s p = (length p \<le> length s \<and> drop (length s - length p) s = p)"

definition lower_char :: "char \<Rightarrow> char" where
  "lower_char c =
     (let n = (of_char c :: nat)
      in if (65 \<le> n \<and> n \<le> 90) \<or> (192 \<le> n \<and> n \<le> 222 \<and> n \<noteq> 215)
         then char_of (n + 32) else c)"

definition py_lower :: "string \<Rightarrow> string" where
  "py_lower s = map lower_char s"

definition isspace :: "char \<Rightarrow> bool" where
  "isspace c =
     (let n = (of_char c :: nat)
      in (9 \<le> n \<and> n \<le> 13) \<or> (28 \<le> n \<and> n \<le> 32) \<or> n = 133 \<or> n = 160)"

definition lstrip_with :: "(char \<Rightarrow> bool) \<Rightarrow> string \<Rightarrow> string" where
  "lstrip_with P s = dropWhile P s"

definition strip_with :: "(char \<Rightarrow> bool) \<Rightarrow> string \<Rightarrow> string" where
  "strip_with P s = rev (dropWhile P (rev (dropWhile P s)))"

definition strip :: "string \<Rightarrow> string" where
  "strip s = strip_with isspace s"

text \<open>\<open>k in s\<close> for two strings: \<open>k\<close> occurs in \<open>s\<close> as a contiguous substring.\<close>

fun contains :: "string \<Rightarrow> string \<Rightarrow> bool" where
  "contains [] k = (k = [])"
| "contains (c # cs) k = (startswith (c # cs) k \<or> contains cs k)"

text \<open>\<open>s.split(sep)\<close> for a one-character separator, and \<open>sep.join(xs)\<close>.\<close>

fun split_on :: "char \<Rightarrow> string \<Rightarrow> string list" where
  "split_on sep [] = [[]]"
| "split_on sep (c # cs) =
     (if c = sep then [] # split_on sep cs
      else (case split_on sep cs of
              [] \<Rightarrow> [[c]]
            | w # ws \<Rightarrow> (c # w) # ws))"

fun join :: "string \<Rightarrow> string list \<Rightarrow> string" where
  "join sep [] = []"
| "join sep [x] = x"
| "join sep (x # y # ys) = x @ sep @ join sep (y # ys)"

text \<open>\<open>s.split(sep, 1)\<close> when \<open>sep\<close> occurs in \<open>s\<close>: the text before and after its first occurrence.\<close>

definition split_first :: "char \<Rightarrow> string \<Rightarrow> string \<times> string" where
  "split_first sep s = (takeWhile (\<lambda>c. c \<noteq> sep) s, drop 1 (dropWhile (\<lambda>c. c \<noteq> sep) s))"

section \<open>The standard library: \<open>urllib.parse\<close>\<close>

text \<open>
  \<open>app.py\<close> calls \<open>urlparse\<close>, \<open>urlunparse\<close> and \<open>urljoin\<close>. They are modelled after
  CPython 3.11's \<open>urllib/parse.py\<close> for \<open>str\<close> arguments. Each of them raises \<open>ValueError\<close>
  on a malformed network location, and \<open>app.py\<close> catches that in its \<open>try\<close> blocks, so the
  exception is a value of the model.

  Two checks of \<open>urlsplit\<close> are parameters: what \<open>_check_bracketed_host\<close> accepts between
  square brackets (it calls the \<open>ipaddress\<close> module), and what \<open>_checknetloc\<close> accepts in a
  network location with a non-ASCII character (it calls \<open>unicodedata.normalize\<close>).
\<close>

datatype exn = ValueError | OSError | RequestFailed

record pylib =
  bracketed_host_ok :: "string \<Rightarrow> bool"
  nfkc_netloc_ok :: "string \<Rightarrow> bool"

record parse_result =
  scheme :: string
  netloc :: string
  path :: string
  params :: string
  query :: string
  fragment :: string

definition uses_relative :: "string list" where
  "uses_relative = ['''', ''ftp'', ''http'', ''gopher'', ''nntp'', ''imap'',
                    ''wais'', ''file'', ''https'', ''shttp'', ''mms'',
                    ''prospero'', ''rtsp'', ''rtsps'', ''rtspu'', ''sftp'',
                    ''svn'', ''svn+ssh'', ''ws'', ''wss'']"

definition uses_netloc :: "string list" where
  "uses_netloc = ['''', ''ftp'', ''http'', ''gopher'', ''nntp'', ''telnet'',
                  ''imap'', ''wais'', ''file'', ''mms'', ''https'', ''shttp'',
                  ''snews'', ''prospero'', ''rtsp'', ''rtsps'', ''rtspu'', ''rsync'',
                  ''svn'', ''svn+ssh'', ''sftp'', ''nfs'', ''git'', ''git+ssh'',
                  ''ws'', ''wss'']"

definition uses_params :: "string list" where
  "uses_params = ['''', ''ftp'', ''hdl'', ''prospero'', ''http'', ''imap'',
                  ''https'', ''shttp'', ''rtsp'', ''rtsps'', ''rtspu'', ''sip'',
                  ''sips'', ''mms'', ''sftp'', ''tel'']"

definition scheme_chars :: string where
  "scheme_chars = ''abcdefghijklmnopqrstuvwxyzABCDEFGHIJKLMNOPQRSTUVWXYZ0123456789+-.''"

definition c0_control_or_space :: "char \<Rightarrow> bool" where
  "c0_control_or_space c = ((of_char c :: nat) \<le> 32)"

definition unsafe_url_byte :: "char \<Rightarrow> bool" where
  "unsafe_url_byte c = (c = CHR 0x09 \<or> c = CHR 0x0D \<or> c = CHR 0x0A)"

definition ascii_alpha :: "char \<Rightarrow> bool" where
  "ascii_alpha c =
     (let n = (of_char c :: nat) in (65 \<le> n \<and> n \<le> 90) \<or> (97 \<le> n \<and> n \<le> 122))"

definition isascii :: "string \<Rightarrow> bool" where
  "isascii s = (\<forall>c \<in> set s. (of_char c :: nat) < 128)"

definition netloc_delim :: "char \<Rightarrow> bool" where
  "netloc_delim c = (c = CHR ''/'' \<or> c = CHR ''?'' \<or> c = CHR ''#'')"

text \<open>\<open>_splitnetloc(url, 2)\<close>: the network location ends at the first of \<open>/ ? #\<close>.\<close>

definition splitnetloc :: "string \<Rightarrow> string \<times> string" where
  "splitnetloc url =
     (takeWhile (\<lambda>c. \<not> netloc_delim c) (drop 2 url),
      dropWhile (\<lambda>c. \<not> netloc_delim c) (drop 2 url))"

text \<open>The scheme test of \<open>urlsplit\<close>: a colon at a position \<open>i > 0\<close>, an ASCII letter first,
  and only scheme characters before the colon.\<close>

definition split_scheme :: "string \<Rightarrow> string \<Rightarrow> string \<times> string" where
  "split_scheme url dflt =
     (let pre = takeWhile (\<lambda>c. c \<noteq> CHR '':'') url
      in if CHR '':'' \<in> set url \<and> pre \<noteq> [] \<and> ascii_alpha (hd url)
            \<and> (\<forall>c \<in> set pre. c \<in> set scheme_chars)
         then (py_lower pre, drop (length pre + 1) url)
         else (dflt, url))"

definition urlsplit ::
  "pylib \<Rightarrow> string \<Rightarrow> string \<Rightarrow> exn + (string \<times> string \<times> string \<times> string \<times> string)" where
  "urlsplit lib url0 scheme0 =
     (let url1 = filter (\<lambda>c. \<not> unsafe_url_byte c) (lstrip_with c0_control_or_space url0);
          scheme1 = filter (\<lambda>c. \<not> unsafe_url_byte c) (strip_with c0_control_or_space scheme0);
          (scheme2, url2) = split_scheme url1 scheme1;
          (netloc2, url3) = (if take 2 url2 = ''//'' then splitnetloc url2 else ([], url2));
          (url4, fragment2) =
             (if CHR ''#'' \<in> set url3 then split_first (CHR ''#'') url3 else (url3, []));
          (url5, query2) =
             (if CHR ''?'' \<in> set url4 then split_first (CHR ''?'') url4 else (url4, []))
      in if (CHR ''['' \<in> set netloc2 \<and> CHR '']'' \<notin> set netloc2)
            \<or> (CHR '']'' \<in> set netloc2 \<and> CHR ''['' \<notin> set netloc2)
         then Inl ValueError
         else if CHR ''['' \<in> set netloc2 \<and> CHR '']'' \<in> set netloc2
                 \<and> \<not> bracketed_host_ok lib
                       (fst (split_first (CHR '']'') (snd (split_first (CHR ''['') netloc2))))
         then Inl ValueError
         else if netloc2 \<noteq> [] \<and> \<not> isascii netloc2 \<and> \<not> nfkc_netloc_ok lib netloc2
         then Inl ValueError
         else Inr (scheme2, netloc2, url5, query2, fragment2))"

definition splitparams :: "string \<Rightarrow> string \<times> string" where
  "splitparams url =
     (if CHR ''/'' \<in> set url
      then (let last = rev (takeWhile (\<lambda>c. c \<noteq> CHR ''/'') (rev url));
                front = take (length url - length last) url
            in if CHR '';'' \<in> set last
               then (front @ fst (split_first (CHR '';'') last), snd (split_first (CHR '';'') last))
               else (url, []))
      else split_first (CHR '';'') url)"

definition urlparse :: "pylib \<Rightarrow> string \<Rightarrow> string \<Rightarrow> exn + parse_result" where
  "urlparse lib url scheme0 =
     (case urlsplit lib url scheme0 of
        Inl e \<Rightarrow> Inl e
      | Inr (sch, loc, u, q, f) \<Rightarrow>
          (let (u', ps) = (if sch \<in> set uses_params \<and> CHR '';'' \<in> set u
                           then splitparams u else (u, []))
           in Inr \<lparr>scheme = sch, netloc = loc, path = u', params = ps,
                    query = q, fragment = f\<rparr>))"

definition urlunsplit :: "string \<Rightarrow> string \<Rightarrow> string \<Rightarrow> string \<Rightarrow> string \<Rightarrow> string" where
  "urlunsplit sch loc url q f =
     (let url1 = (if loc \<noteq> [] \<or> (sch \<noteq> [] \<and> sch \<in> set uses_netloc) \<or> take 2 url = ''//''
                  then ''//'' @ loc @ (if url \<noteq> [] \<and> take 1 url \<noteq> ''/'' then ''/'' @ url else url)
                  else url);
          url2 = (if sch \<noteq> [] then sch @ '':'' @ url1 else url1);
          url3 = (if q \<noteq> [] then url2 @ ''?'' @ q else url2)
      in if f \<noteq> [] then url3 @ ''#'' @ f else url3)"

definition urlunparse :: "parse_result \<Rightarrow> string" where
  "urlunparse p =
     urlunsplit (scheme p) (netloc p)
       (if params p \<noteq> [] then path p @ '';'' @ params p else path p)
       (query p) (fragment p)"

text \<open>The segment loop of \<open>urljoin\<close>: \<open>..\<close> pops (a pop from the empty list is ignored),
  \<open>.\<close> is skipped, anything else is appended.\<close>

fun resolve_segments :: "string list \<Rightarrow> string list \<Rightarrow> string list" where
  "resolve_segments resolved [] = resolved"
| "resolve_segments resolved (seg # segs) =
     (if seg = ''..'' then resolve_segments (butlast resolved) segs
      else if seg = ''.'' then resolve_segments resolved segs
      else resolve_segments (resolved @ [seg]) segs)"

text \<open>\<open>segments[1:-1] = filter(None, segments[1:-1])\<close>\<close>

definition filter_inner :: "string list \<Rightarrow> string list" where
  "filter_inner segments =
     (if length segments < 2 then segments
      else hd segments # filter (\<lambda>s. s \<noteq> []) (butlast (tl segments)) @ [last segments])"

definition urljoin :: "pylib \<Rightarrow> string \<Rightarrow> string \<Rightarrow> exn + string" where
  "urljoin lib base url =
     (if base = [] then Inr url
      else if url = [] then Inr base
      else
        (case urlparse lib base [] of
           Inl e \<Rightarrow> Inl e
         | Inr b \<Rightarrow>
             (case urlparse lib url (scheme b) of
                Inl e \<Rightarrow> Inl e
              | Inr u \<Rightarrow>
                  if scheme u \<noteq> scheme b \<or> scheme u \<notin> set uses_relative then Inr url
                  else if scheme u \<in> set uses_netloc \<and> netloc u \<noteq> [] then Inr (urlunparse u)
                  else
                    (let loc = (if scheme u \<in> set uses_netloc then netloc b else netloc u)
                     in if path u = [] \<and> params u = []
                        then Inr (urlunparse
                               (u\<lparr>netloc := loc, path := path b, params := params b,
                                  query := (if query u = [] then query b else query u)\<rparr>))
                        else
                          (let base_parts0 = split_on (CHR ''/'') (path b);
                               base_parts = (if last base_parts0 \<noteq> [] then butlast base_parts0
                                             else base_parts0);
                               segments = (if take 1 (path u) = ''/''
                                           then split_on (CHR ''/'') (path u)
                                           else filter_inner
                                                  (base_parts @ split_on (CHR ''/'') (path u)));
                               resolved0 = resolve_segments [] segments;
                               resolved = (if last segments = ''.'' \<or> last segments = ''..''
                                           then resolved0 @ [[]] else resolved0);
                               joined = join ''/'' resolved
                           in Inr (urlunparse
                                 (u\<lparr>netloc := loc,
                                    path := (if joined = [] then ''/'' else joined)\<rparr>)))))))"

section \<open>The parsed document\<close>

text \<open>
  A \<open>BeautifulSoup\<close> tree as \<open>html.parser\<close> builds it: a text node, or a tag with its name,
  its \<open>class\<close> attribute (the only attribute read here that the parser stores as a list of
  tokens; \<open>None\<close> when the tag has none), its other attributes as strings, and its children.
  The document itself is a tag named \<open>[document]\<close> without attributes.
\<close>

datatype node =
    NavigableString string
  | Tag (name: string) (klass: "string list option") (attrs: "(string \<times> string) list")
        (contents: "node list")

definition get_attr :: "node \<Rightarrow> string \<Rightarrow> string option" where
  "get_attr nd k = (case nd of NavigableString s \<Rightarrow> None | Tag n c a kids \<Rightarrow> map_of a k)"

text \<open>The tags of a subtree in document order, each with its chain of parents (nearest first).\<close>

fun subtree :: "node list \<Rightarrow> node \<Rightarrow> (node \<times> node list) list" where
  "subtree ancs (NavigableString s) = []"
| "subtree ancs (Tag n c a kids) =
     (Tag n c a kids, ancs) # concat (map (subtree (Tag n c a kids # ancs)) kids)"

fun get_text :: "node \<Rightarrow> string" where
  "get_text (NavigableString s) = s"
| "get_text (Tag n c a kids) = concat (map get_text kids)"

text \<open>
  A tag inside its document: the tag, its parents up to the document (what following
  \<open>.parent\<close> yields) and the tags before it in document order, nearest first (what
  \<open>find_previous\<close> searches).
\<close>

record element =
  el :: node
  parents :: "node list"
  previous :: "node list"

definition elements :: "node \<Rightarrow> element list" where
  "elements soup =
     (let ts = tl (subtree [] soup)
      in map (\<lambda>i. \<lparr>el = fst (ts ! i), parents = snd (ts ! i),
                    previous = rev (map fst (take i ts))\<rparr>) [0..<length ts])"

definition find_all :: "node \<Rightarrow> string \<Rightarrow> element list" where
  "find_all soup nm = filter (\<lambda>e. name (el e) = nm) (elements soup)"

definition find_previous :: "element \<Rightarrow> string \<Rightarrow> node option" where
  "find_previous e nm = List.find (\<lambda>n. name n = nm) (previous e)"

text \<open>\<open>nav_element.find_all('a', href=True)\<close>, reduced to the \<open>href\<close> values the loop reads.\<close>

definition find_all_a_href :: "node \<Rightarrow> string list" where
  "find_all_a_href nav_element =
     concat (map (\<lambda>(n, ps). if name n = ''a'' then (case get_attr n ''href'' of
                                                        None \<Rightarrow> [] | Some h \<Rightarrow> [h]) else [])
                 (tl (subtree [] nav_element)))"

subsection \<open>CSS selectors\<close>

text \<open>
  The selectors \<open>app.py\<close> passes to \<open>soup.select\<close> are type, class, id and attribute-value
  selectors, alone or chained by the descendant combinator. A selector is the list of its
  parts, outermost first.
\<close>

datatype simple_sel =
    TagSel string
  | ClassSel string
  | IdSel string
  | AttrSel string string

type_synonym selector = "simple_sel list"

fun simple_match :: "simple_sel \<Rightarrow> node \<Rightarrow> bool" where
  "simple_match (TagSel t) nd = (py_lower (name nd) = py_lower t)"
| "simple_match (ClassSel c) nd = (case klass nd of None \<Rightarrow> False | Some cs \<Rightarrow> c \<in> set cs)"
| "simple_match (IdSel i) nd = (get_attr nd ''id'' = Some i)"
| "simple_match (AttrSel k v) nd = (get_attr nd k = Some v)"

text \<open>The parts innermost first: the tag matches the first part, and some chain of parents
  matches the others in turn.\<close>

fun sel_match :: "simple_sel list \<Rightarrow> node \<Rightarrow> node list \<Rightarrow> bool" where
  "sel_match [] nd ancs = False"
| "sel_match [s] nd ancs = simple_match s nd"
| "sel_match (s # t # ts) nd ancs =
     (simple_match s nd \<and>
      list_ex (\<lambda>i. sel_match (t # ts) (ancs ! i) (drop (Suc i) ancs)) [0..<length ancs])"

definition select :: "node \<Rightarrow> selector \<Rightarrow> element list" where
  "select soup sel = filter (\<lambda>e. sel_match (rev sel) (el e) (parents e)) (elements soup)"

section \<open>\<open>WebScraper\<close>\<close>

text \<open>The fields of a \<open>WebScraper\<close> that its methods read and write, as \<open>__init__\<close> sets them.\<close>

record scraper =
  visited_urls :: "string set"
  base_domain :: "string option"

definition WebScraper_init :: scraper where
  "WebScraper_init = \<lparr>visited_urls = {}, base_domain = None\<rparr>"

subsection \<open>\<open>get_image_location\<close>\<close>

definition semantic_tags :: "string list" where
  "semantic_tags = [''header'', ''nav'', ''main'', ''section'', ''article'', ''aside'', ''footer'']"

definition location_keywords :: "string list" where
  "location_keywords =
     [''header'', ''nav'', ''menu'', ''sidebar'', ''footer'', ''content'', ''main'', ''banner'']"

text \<open>What one pass of the \<open>while\<close> body appends to \<open>location_indicators\<close> for \<open>current\<close>.\<close>

definition indicators_of :: "node \<Rightarrow> string list" where
  "indicators_of current =
     (if name current \<in> set semantic_tags then [name current] else [])
     @ (case get_attr current ''id'' of
          None \<Rightarrow> []
        | Some i \<Rightarrow> if i \<noteq> [] then [''#'' @ i] else [])
     @ (case klass current of
          None \<Rightarrow> []
        | Some classes \<Rightarrow>
            (case List.find (\<lambda>cls. \<exists>keyword \<in> set location_keywords.
                                      contains (py_lower cls) keyword) classes of
               None \<Rightarrow> []
             | Some cls \<Rightarrow> [''.'' @ cls]))"

text \<open>The \<open>while current and depth < 10\<close> loop: the first argument is \<open>current\<close> with the
  parents above it; the empty list is \<open>current = None\<close>.\<close>

fun walk_parents :: "node list \<Rightarrow> nat \<Rightarrow> string list \<Rightarrow> string list" where
  "walk_parents [] depth location_indicators = location_indicators"
| "walk_parents (current # up) depth location_indicators =
     (if depth < 10
      then walk_parents up (depth + 1) (location_indicators @ indicators_of current)
      else location_indicators)"

definition heading_tags :: "string list" where
  "heading_tags = [''h1'', ''h2'', ''h3'', ''h4'', ''h5'', ''h6'']"

text \<open>The \<open>for heading in [...]\<close> loop, with its \<open>break\<close>.\<close>

fun nearby_heading :: "element \<Rightarrow> string list \<Rightarrow> string list" where
  "nearby_heading img [] = []"
| "nearby_heading img (heading # rest) =
     (case find_previous img heading of
        None \<Rightarrow> nearby_heading img rest
      | Some prev_heading \<Rightarrow>
          if length (strip (get_text prev_heading)) > 0
          then [''Near heading: '' @ take 50 (strip (get_text prev_heading))]
          else nearby_heading img rest)"

definition get_image_location :: "element \<Rightarrow> string" where
  "get_image_location img_element =
     (let walked = walk_parents (parents img_element) 0 [];
          location_indicators =
            (if walked = [] then nearby_heading img_element heading_tags else walked)
      in if location_indicators \<noteq> [] then join '' > '' (rev location_indicators)
         else ''Unknown section'')"

subsection \<open>\<open>find_images\<close>\<close>

record image =
  url :: string
  alt :: string
  location :: string
  index :: nat
  element :: element

definition image_src :: "pylib \<Rightarrow> string \<Rightarrow> string \<Rightarrow> exn + string" where
  "image_src lib base_url src =
     (if startswith src ''//'' then Inr (''https:'' @ src)
      else if startswith src ''/'' then urljoin lib base_url src
      else if \<not> (startswith src ''http://'' \<or> startswith src ''https://'')
      then urljoin lib base_url src
      else Inr src)"

text \<open>The \<open>for idx, img in enumerate(img_tags)\<close> loop. \<open>urljoin\<close> is not guarded in
  \<open>find_images\<close>, so its \<open>ValueError\<close> leaves the method.\<close>

fun find_images_loop ::
  "pylib \<Rightarrow> string \<Rightarrow> (nat \<times> element) list \<Rightarrow> image list \<Rightarrow> exn + image list" where
  "find_images_loop lib base_url [] images = Inr images"
| "find_images_loop lib base_url ((idx, img) # rest) images =
     (case get_attr (el img) ''src'' of
        None \<Rightarrow> find_images_loop lib base_url rest images
      | Some src \<Rightarrow>
          if src = [] then find_images_loop lib base_url rest images
          else (case image_src lib base_url src of
                  Inl e \<Rightarrow> Inl e
                | Inr src' \<Rightarrow>
                    find_images_loop lib base_url rest
                      (images @ [\<lparr>url = src',
                                  alt = (case get_attr (el img) ''alt'' of
                                           None \<Rightarrow> [] | Some a \<Rightarrow> a),
                                  location = get_image_location img,
                                  index = idx + 1,
                                  element = img\<rparr>])))"

definition find_images :: "pylib \<Rightarrow> node \<Rightarrow> string \<Rightarrow> exn + image list" where
  "find_images lib soup base_url =
     (let img_tags = find_all soup ''img''
      in find_images_loop lib base_url (zip [0..<length img_tags] img_tags) [])"

subsection \<open>\<open>find_navigation_links\<close>\<close>

definition nav_selectors :: "selector list" where
  "nav_selectors =
     [[TagSel ''nav''],
      [TagSel ''header'', TagSel ''nav''],
      [ClassSel ''navbar''], [ClassSel ''navigation''], [ClassSel ''nav''], [ClassSel ''menu''],
      [ClassSel ''main-nav''], [ClassSel ''primary-nav''],
      [ClassSel ''header-nav''], [ClassSel ''site-nav''], [ClassSel ''top-nav''],
      [ClassSel ''nav-menu''], [ClassSel ''nav-bar''],
      [IdSel ''navbar''], [IdSel ''navigation''], [IdSel ''nav''], [IdSel ''menu''],
      [IdSel ''main-nav''], [IdSel ''primary-nav''],
      [IdSel ''header-nav''], [IdSel ''site-nav''], [IdSel ''top-nav''],
      [TagSel ''header''],
      [AttrSel ''role'' ''navigation''],
      [ClassSel ''header''], [ClassSel ''site-header''], [ClassSel ''main-header'']]"

definition fallback_selectors :: "selector list" where
  "fallback_selectors =
     [[TagSel ''ul'', TagSel ''li'', TagSel ''a''],
      [ClassSel ''menu-item'', TagSel ''a''],
      [ClassSel ''nav-item'', TagSel ''a'']]"

definition skip_href :: "string \<Rightarrow> bool" where
  "skip_href href =
     (href = [] \<or> startswith href ''#'' \<or> startswith href ''mailto:'' \<or> startswith href ''tel:'')"

definition absolute_url :: "pylib \<Rightarrow> string \<Rightarrow> string \<Rightarrow> string \<Rightarrow> exn + string" where
  "absolute_url lib domain base_url href =
     (if startswith href ''//'' then Inr (''https:'' @ href)
      else if startswith href ''/'' then Inr (domain @ href)
      else if \<not> (startswith href ''http://'' \<or> startswith href ''https://'')
      then urljoin lib base_url href
      else Inr href)"

text \<open>\<open>urlunparse(urlparse(absolute_url)._replace(fragment=''))\<close>\<close>

definition clean_url :: "pylib \<Rightarrow> string \<Rightarrow> exn + string" where
  "clean_url lib a =
     (case urlparse lib a [] of
        Inl e \<Rightarrow> Inl e
      | Inr parsed \<Rightarrow> Inr (urlunparse (parsed\<lparr>fragment := []\<rparr>)))"

text \<open>\<open>links\<close> is a Python set: the list of its members in the order they were first added.\<close>

definition set_add :: "string list \<Rightarrow> string \<Rightarrow> string list" where
  "set_add links x = (if x \<in> set links then links else links @ [x])"

text \<open>
  The two nested \<open>for\<close> loops over the links of the elements one selector matched. The
  result is \<open>links\<close>, \<open>nav_links_found\<close> and whether an exception left the loops.
\<close>

fun nav_link_loop ::
  "pylib \<Rightarrow> string \<Rightarrow> string \<Rightarrow> string list \<Rightarrow> string list \<Rightarrow> bool
     \<Rightarrow> string list \<times> bool \<times> bool" where
  "nav_link_loop lib domain base_url [] links nav_links_found = (links, nav_links_found, False)"
| "nav_link_loop lib domain base_url (href # rest) links nav_links_found =
     (if skip_href href then nav_link_loop lib domain base_url rest links nav_links_found
      else (case absolute_url lib domain base_url href of
              Inl e \<Rightarrow> (links, nav_links_found, True)
            | Inr a \<Rightarrow>
                if startswith a domain
                then (case clean_url lib a of
                        Inl e \<Rightarrow> (links, nav_links_found, True)
                      | Inr clean \<Rightarrow>
                          nav_link_loop lib domain base_url rest (set_add links clean) True)
                else nav_link_loop lib domain base_url rest links nav_links_found))"

text \<open>The \<open>for selector in nav_selectors\<close> loop: \<open>continue\<close> on no match and in the
  \<open>except\<close> clause, \<open>break\<close> once \<open>nav_links_found\<close> is set.\<close>

fun nav_selector_loop ::
  "pylib \<Rightarrow> string \<Rightarrow> string \<Rightarrow> node \<Rightarrow> selector list \<Rightarrow> string list \<Rightarrow> bool
     \<Rightarrow> string list" where
  "nav_selector_loop lib domain base_url soup [] links nav_links_found = links"
| "nav_selector_loop lib domain base_url soup (selector # rest) links nav_links_found =
     (let nav_elements = select soup selector
      in if nav_elements = []
         then nav_selector_loop lib domain base_url soup rest links nav_links_found
         else (case nav_link_loop lib domain base_url
                      (concat (map (\<lambda>e. find_all_a_href (el e)) nav_elements))
                      links nav_links_found of
                 (links', found', raised) \<Rightarrow>
                   if raised then nav_selector_loop lib domain base_url soup rest links' found'
                   else if found' then links'
                   else nav_selector_loop lib domain base_url soup rest links' found'))"

text \<open>The link loop of the fallback; \<open>link.get('href')\<close> may be \<open>None\<close>.\<close>

fun fallback_link_loop ::
  "pylib \<Rightarrow> string \<Rightarrow> string \<Rightarrow> string option list \<Rightarrow> string list \<Rightarrow> string list \<times> bool" where
  "fallback_link_loop lib domain base_url [] links = (links, False)"
| "fallback_link_loop lib domain base_url (href # rest) links =
     (case href of
        None \<Rightarrow> fallback_link_loop lib domain base_url rest links
      | Some h \<Rightarrow>
          if skip_href h then fallback_link_loop lib domain base_url rest links
          else (case absolute_url lib domain base_url h of
                  Inl e \<Rightarrow> (links, True)
                | Inr a \<Rightarrow>
                    if startswith a domain
                    then (case clean_url lib a of
                            Inl e \<Rightarrow> (links, True)
                          | Inr clean \<Rightarrow>
                              fallback_link_loop lib domain base_url rest (set_add links clean))
                    else fallback_link_loop lib domain base_url rest links))"

fun fallback_selector_loop ::
  "pylib \<Rightarrow> string \<Rightarrow> string \<Rightarrow> node \<Rightarrow> selector list \<Rightarrow> string list \<Rightarrow> string list" where
  "fallback_selector_loop lib domain base_url soup [] links = links"
| "fallback_selector_loop lib domain base_url soup (selector # rest) links =
     (case fallback_link_loop lib domain base_url
             (map (\<lambda>e. get_attr (el e) ''href'') (take 10 (select soup selector))) links of
        (links', raised) \<Rightarrow>
          if raised then fallback_selector_loop lib domain base_url soup rest links'
          else if links' \<noteq> [] then links'
          else fallback_selector_loop lib domain base_url soup rest links')"

text \<open>
  \<open>self.base_domain\<close> is computed on the first call; \<open>urlparse\<close> is outside every \<open>try\<close>
  there, so its \<open>ValueError\<close> leaves the method with \<open>self\<close> unchanged.
\<close>

definition find_navigation_links ::
  "pylib \<Rightarrow> scraper \<Rightarrow> node \<Rightarrow> string \<Rightarrow> exn + (string list \<times> scraper)" where
  "find_navigation_links lib self soup base_url =
     (case (case base_domain self of
              None \<Rightarrow> map_sum id (\<lambda>p. scheme p @ ''://'' @ netloc p) (urlparse lib base_url [])
            | Some d \<Rightarrow>
                if d = []
                then map_sum id (\<lambda>p. scheme p @ ''://'' @ netloc p) (urlparse lib base_url [])
                else Inr d) of
        Inl e \<Rightarrow> Inl e
      | Inr domain \<Rightarrow>
          (let links = nav_selector_loop lib domain base_url soup nav_selectors [] False;
               links' = (if links = []
                         then fallback_selector_loop lib domain base_url soup
                                fallback_selectors links
                         else links)
           in Inr (links', self\<lparr>base_domain := Some domain\<rparr>)))"

subsection \<open>\<open>crawl_website\<close>\<close>

text \<open>
  What the crawl does not decide itself: the library parameters; \<open>get_html_content\<close>, whose
  outcome for a URL may differ from one request to the next (the first argument counts the
  requests made before; \<open>None\<close> is the exception it raises); and the order in which Python
  iterates over the set \<open>page_links\<close>.
\<close>

record env =
  urllib :: pylib
  get_html_content :: "nat \<Rightarrow> string \<Rightarrow> (string \<times> node) option"
  set_iter :: "string list \<Rightarrow> string list"

record page_data =
  title :: string
  html_content :: string
  images :: "image list"
  links_found :: nat
  images_count :: nat

text \<open>
  The state of the loop: the scraper's fields, the two locals \<open>pages_data\<close> (a \<open>dict\<close>, in
  insertion order) and \<open>urls_to_visit\<close>, and the URLs requested so far, in order.
\<close>

record crawl_state =
  self :: scraper
  pages_data :: "(string \<times> page_data) list"
  urls_to_visit :: "string list"
  requested :: "string list"

text \<open>\<open>d[k] = v\<close>\<close>

fun dict_set :: "('k \<times> 'v) list \<Rightarrow> 'k \<Rightarrow> 'v \<Rightarrow> ('k \<times> 'v) list" where
  "dict_set [] k v = [(k, v)]"
| "dict_set ((k', v') # d) k v = (if k' = k then (k, v) # d else (k', v') # dict_set d k v)"

text \<open>The \<open>for link in page_links\<close> loop.\<close>

fun enqueue :: "string set \<Rightarrow> string list \<Rightarrow> string list \<Rightarrow> string list" where
  "enqueue visited [] queue = queue"
| "enqueue visited (link # rest) queue =
     (if link \<notin> visited \<and> link \<notin> set queue then enqueue visited rest (queue @ [link])
      else enqueue visited rest queue)"

definition page_title :: "node \<Rightarrow> string" where
  "page_title soup =
     (case find_all soup ''title'' of
        [] \<Rightarrow> ''No title''
      | title_tag # _ \<Rightarrow> strip (get_text (el title_tag)))"

text \<open>One pass of the \<open>while\<close> body, entered with a non-empty \<open>urls_to_visit\<close>.\<close>

definition crawl_step :: "env \<Rightarrow> crawl_state \<Rightarrow> crawl_state" where
  "crawl_step e st =
     (let current_url = hd (urls_to_visit st);
          queue = tl (urls_to_visit st)
      in if current_url \<in> visited_urls (self st) then st\<lparr>urls_to_visit := queue\<rparr>
         else
           (case get_html_content e (length (requested st)) current_url of
              None \<Rightarrow> st\<lparr>urls_to_visit := queue, requested := requested st @ [current_url]\<rparr>
            | Some (html, soup) \<Rightarrow>
                (let self1 = (self st)\<lparr>visited_urls := insert current_url (visited_urls (self st))\<rparr>;
                     failed = st\<lparr>self := self1, urls_to_visit := queue,
                                 requested := requested st @ [current_url]\<rparr>
                 in case find_images (urllib e) soup current_url of
                      Inl ex \<Rightarrow> failed
                    | Inr imgs \<Rightarrow>
                        (case find_navigation_links (urllib e) self1 soup current_url of
                           Inl ex \<Rightarrow> failed
                         | Inr (page_links, self2) \<Rightarrow>
                             \<lparr>self = self2,
                              pages_data = dict_set (pages_data st) current_url
                                \<lparr>title = page_title soup, html_content = html, images = imgs,
                                 links_found = length page_links, images_count = length imgs\<rparr>,
                              urls_to_visit =
                                enqueue (visited_urls self2) (set_iter e page_links) queue,
                              requested = requested st @ [current_url]\<rparr>))))"

definition crawl_cond :: "int \<Rightarrow> crawl_state \<Rightarrow> bool" where
  "crawl_cond max_pages st =
     (urls_to_visit st \<noteq> [] \<and> int (length (pages_data st)) < max_pages)"

definition crawl_measure :: "int \<Rightarrow> crawl_state \<Rightarrow> nat" where
  "crawl_measure max_pages st =
     nat (max_pages - int (length (pages_data st)))
     + card (fst ` set (pages_data st) - visited_urls (self st))"

function crawl_loop :: "env \<Rightarrow> int \<Rightarrow> crawl_state \<Rightarrow> crawl_state" where
  "crawl_loop e max_pages st =
     (if crawl_cond max_pages st then crawl_loop e max_pages (crawl_step e st) else st)"
  by pat_completeness auto

definition crawl_start :: "scraper \<Rightarrow> string \<Rightarrow> crawl_state" where
  "crawl_start scr start_url =
     \<lparr>self = scr, pages_data = [], urls_to_visit = [start_url], requested = []\<rparr>"

definition crawl_website :: "env \<Rightarrow> scraper \<Rightarrow> string \<Rightarrow> int \<Rightarrow> crawl_state" where
  "crawl_website e scr start_url max_pages = crawl_loop e max_pages (crawl_start scr start_url)"

text \<open>The states in which the \<open>while\<close> condition is evaluated during a run.\<close>

inductive_set crawl_states :: "env \<Rightarrow> int \<Rightarrow> crawl_state \<Rightarrow> crawl_state set"
  for e :: env and max_pages :: int and st0 :: crawl_state where
  start: "st0 \<in> crawl_states e max_pages st0"
| step: "st \<in> crawl_states e max_pages st0 \<Longrightarrow> crawl_cond max_pages st
         \<Longrightarrow> crawl_step e st \<in> crawl_states e max_pages st0"

text \<open>The invariant of the loop, for a crawl started on a fresh \<open>WebScraper\<close>.\<close>

definition crawl_inv :: "crawl_state \<Rightarrow> bool" where
  "crawl_inv st =
     (distinct (urls_to_visit st) \<and> visited_urls (self st) \<inter> set (urls_to_visit st) = {}
      \<and> fst ` set (pages_data st) \<subseteq> visited_urls (self st)
      \<and> distinct (map fst (pages_data st)))"

section \<open>\<open>download_and_convert_image\<close>\<close>

text \<open>
  The response of \<open>session.get\<close> and the image \<open>Image.open\<close> decodes it to. Of a Pillow
  image the method reads the mode only; the pixel data is carried along unchanged.
\<close>

record response =
  status_code :: nat
  headers :: "(string \<times> string) list"
  content :: "nat list"

record pil_image =
  mode :: string
  pixels :: "nat list"

datatype image_format = JPEG | PNG

text \<open>A file written by \<open>img.save\<close>: its path, its format, the \<open>quality\<close> argument if one was
  given, and the image.\<close>

record saved_file =
  file_path :: string
  file_format :: image_format
  file_quality :: "nat option"
  file_image :: pil_image

text \<open>
  What the method does not decide itself: \<open>session.get\<close> (\<open>None\<close> when it raises),
  \<open>Image.open\<close> (\<open>None\<close> when the bytes are not an image it recognises) and whether a file
  can be created at a path.
\<close>

record image_env =
  session_get :: "string \<Rightarrow> response option"
  image_open :: "nat list \<Rightarrow> pil_image option"
  can_write :: "string \<Rightarrow> bool"

text \<open>\<open>response.headers.get('content-type', '')\<close>; the header names of a response compare
  without case.\<close>

definition content_type_of :: "response \<Rightarrow> string" where
  "content_type_of r =
     (case List.find (\<lambda>(k, v). py_lower k = ''content-type'') (headers r) of
        None \<Rightarrow> []
      | Some (k, v) \<Rightarrow> v)"

text \<open>\<open>os.path.join\<close> of two components on a POSIX system.\<close>

definition path_join :: "string \<Rightarrow> string \<Rightarrow> string" where
  "path_join a b =
     (if startswith b ''/'' then b
      else if a = [] \<or> endswith a ''/'' then a @ b
      else a @ ''/'' @ b)"

text \<open>
  The modes Pillow's JPEG and PNG writers accept (the keys of \<open>RAWMODE\<close> in
  \<open>JpegImagePlugin\<close> and of \<open>_OUTMODES\<close> in \<open>PngImagePlugin\<close>); for any other mode
  \<open>img.save\<close> raises \<open>OSError\<close>, as it does when the file cannot be created.
\<close>

definition writable_modes :: "image_format \<Rightarrow> string list" where
  "writable_modes fmt =
     (case fmt of
        JPEG \<Rightarrow> [''1'', ''L'', ''RGB'', ''RGBX'', ''CMYK'', ''YCbCr'']
      | PNG \<Rightarrow> [''1'', ''L'', ''LA'', ''I'', ''I;16'', ''P'', ''RGB'', ''RGBA''])"

definition img_save ::
  "image_env \<Rightarrow> pil_image \<Rightarrow> string \<Rightarrow> image_format \<Rightarrow> nat option \<Rightarrow> exn + saved_file" where
  "img_save e img output_path fmt quality =
     (if mode img \<notin> set (writable_modes fmt) then Inl OSError
      else if \<not> can_write e output_path then Inl OSError
      else Inr \<lparr>file_path = output_path, file_format = fmt, file_quality = quality,
                file_image = img\<rparr>)"

text \<open>The method returns the path, or \<open>None\<close> from its \<open>except\<close> clause; the second component
  lists the files it wrote.\<close>

definition download_and_convert_image ::
  "image_env \<Rightarrow> string \<Rightarrow> string \<Rightarrow> string \<Rightarrow> string option \<times> saved_file list" where
  "download_and_convert_image e img_url output_dir filename =
     (case session_get e img_url of
        None \<Rightarrow> (None, [])
      | Some response \<Rightarrow>
          if 400 \<le> status_code response \<and> status_code response < 600 then (None, [])
          else
            (let content_type = content_type_of response
             in case image_open e (content response) of
                  None \<Rightarrow> (None, [])
                | Some img0 \<Rightarrow>
                    (let img = (if mode img0 \<in> set [''RGBA'', ''LA'', ''P''] then img0
                                else if mode img0 \<noteq> ''RGB'' then img0\<lparr>mode := ''RGB''\<rparr>
                                else img0);
                         (output_path, fmt, quality) =
                           (if content_type \<in> set [''image/jpeg'', ''image/jpg'']
                               \<or> endswith (py_lower img_url) ''.jpg''
                               \<or> endswith (py_lower img_url) ''.jpeg''
                            then (path_join output_dir (filename @ ''.jpg''), JPEG, Some 95)
                            else if content_type = ''image/png''
                                    \<or> endswith (py_lower img_url) ''.png''
                            then (path_join output_dir (filename @ ''.png''), PNG, None)
                            else (path_join output_dir (filename @ ''.png''), PNG, None))
                     in case img_save e img output_path fmt quality of
                          Inl ex \<Rightarrow> (None, [])
                        | Inr f \<Rightarrow> (Some output_path, [f]))))"

section \<open>Example sites and documents\<close>

text \<open>
  Concrete library parameters, documents and sites on which the theorems are instantiated,
  and two predicates the statements use.
\<close>

definition lib_any :: pylib where
  "lib_any = \<lparr>bracketed_host_ok = (\<lambda>h. True), nfkc_netloc_ok = (\<lambda>n. True)\<rparr>"

definition link :: "string \<Rightarrow> node" where
  "link href = Tag ''a'' None [(''href'', href)] [NavigableString ''x'']"

definition document :: "node list \<Rightarrow> node" where
  "document kids = Tag ''[document]'' None [] kids"

text \<open>The home page links to \<open>/b\<close> and \<open>/c\<close>; \<open>/b\<close> cannot be fetched; \<open>/c\<close> links to \<open>/b\<close>.\<close>

definition site_retry :: "nat \<Rightarrow> string \<Rightarrow> (string \<times> node) option" where
  "site_retry k u =
     (if u = ''https://a.com''
      then Some (''home'', document [Tag ''nav'' None [] [link ''/b'', link ''/c'']])
      else if u = ''https://a.com/c''
      then Some (''c'', document [Tag ''nav'' None [] [link ''/b'']])
      else None)"

definition env_retry :: env where
  "env_retry = \<lparr>urllib = lib_any, get_html_content = site_retry, set_iter = (\<lambda>ls. ls)\<rparr>"

definition st_retry1 :: crawl_state where
  "st_retry1 = crawl_step env_retry (crawl_start WebScraper_init ''https://a.com'')"

text \<open>A home page whose only image has a source that \<open>urljoin\<close> rejects.\<close>

definition page_badimg :: node where
  "page_badimg = document [Tag ''img'' None [(''src'', ''ftp://['')] []]"

definition site_badimg :: "nat \<Rightarrow> string \<Rightarrow> (string \<times> node) option" where
  "site_badimg k u = (if u = ''https://a.com'' then Some (''home'', page_badimg) else None)"

definition env_badimg :: env where
  "env_badimg = \<lparr>urllib = lib_any, get_html_content = site_badimg, set_iter = (\<lambda>ls. ls)\<rparr>"

text \<open>Documents for the navigation link extractor and the image locator.\<close>

definition page_fragments :: node where
  "page_fragments = document [Tag ''nav'' None [] [link ''/p#a'', link ''/p#b'']]"

definition page_image_fragments :: node where
  "page_image_fragments =
     document [Tag ''img'' None [(''src'', ''http://x.com/p#a'')] [],
               Tag ''img'' None [(''src'', ''http://x.com/p#b'')] [],
               Tag ''img'' None [(''src'', ''pic.png#top'')] []]"

definition page_foreign_host :: node where
  "page_foreign_host = document [Tag ''nav'' None [] [link ''https://a.com.evil.net/x'']]"

definition page_nav_and_header :: node where
  "page_nav_and_header =
     document [Tag ''nav'' None [] [link ''/a'', link ''ftp://[''],
               Tag ''header'' None [] [link ''/b'']]"

text \<open>
  The fallback label as claim C6 words it, for comparison with \<open>get_image_location\<close>: the
  nearest preceding heading element, of any level, that has non-empty text.
\<close>

definition nearest_heading_label :: "element \<Rightarrow> string" where
  "nearest_heading_label img =
     (case List.find (\<lambda>n. name n \<in> set heading_tags \<and> strip (get_text n) \<noteq> []) (previous img) of
        None \<Rightarrow> ''Unknown section''
      | Some h \<Rightarrow> ''Near heading: '' @ take 50 (strip (get_text h)))"

definition page_banner :: node where
  "page_banner =
     document [Tag ''div'' (Some [''a'', ''TopBanner'', ''menu'']) [(''id'', ''q'')]
                 [Tag ''section'' None [] [Tag ''img'' None [(''src'', ''x.png'')] []]]]"

definition page_headings :: node where
  "page_headings =
     document [Tag ''h1'' None [] [NavigableString ''Site''],
               Tag ''h2'' None [] [NavigableString ''Team''],
               Tag ''img'' None [(''src'', ''x.png'')] []]"

definition page_team :: node where
  "page_team =
     document [Tag ''h2'' None [] [NavigableString ''Team''],
               Tag ''img'' None [(''src'', ''x.png'')] []]"



text \<open>A server that answers \<open>/logo.jpg\<close> with a PNG that has an alpha channel, one that
  answers \<open>/anim.gif\<close> with a GIF, and one that answers \<open>/photo.jpg\<close> with a JPEG.\<close>

definition images_env :: image_env where
  "images_env =
     \<lparr>session_get = (\<lambda>u.
         if u = ''https://a.com/logo.jpg''
         then Some \<lparr>status_code = 200, headers = [(''Content-Type'', ''image/jpeg'')],
                    content = [137, 80, 78, 71]\<rparr>
         else if u = ''https://a.com/anim.gif''
         then Some \<lparr>status_code = 200, headers = [(''Content-Type'', ''image/gif'')],
                    content = [71, 73, 70]\<rparr>
         else if u = ''https://a.com/photo.jpg''
         then Some \<lparr>status_code = 200, headers = [(''Content-Type'', ''image/jpeg'')],
                    content = [255, 216]\<rparr>
         else None),
      image_open = (\<lambda>bs.
         if bs = [137, 80, 78, 71] then Some \<lparr>mode = ''RGBA'', pixels = [1, 2, 3, 4]\<rparr>
         else if bs = [71, 73, 70] then Some \<lparr>mode = ''P'', pixels = [7]\<rparr>
         else if bs = [255, 216] then Some \<lparr>mode = ''RGB'', pixels = [9, 9, 9]\<rparr>
         else None),
      can_write = (\<lambda>p. True)\<rparr>"

text \<open>The states of the crawl of \<open>site_retry\<close> after its second and third pass, and the page
  \<open>/c\<close>.\<close>

definition st_retry2 :: crawl_state where
  "st_retry2 = crawl_step env_retry st_retry1"

definition st_retry3 :: crawl_state where
  "st_retry3 = crawl_step env_retry st_retry2"

definition page_c :: node where
  "page_c = document [Tag ''nav'' None [] [link ''/b'']]"

text \<open>The home page of \<open>site_retry\<close>.\<close>

definition page_home :: node where
  "page_home = document [Tag ''nav'' None [] [link ''/b'', link ''/c'']]"

section \<open>The crawl loop\<close>

text \<open>
  The loop ends: a pass that stores a page either adds a key to \<open>pages_data\<close> or marks a
  stored key visited, and every other pass shortens \<open>urls_to_visit\<close>.
\<close>

lemma find_navigation_links_visited:
  "find_navigation_links lib s soup b = Inr (ls, s') \<Longrightarrow> visited_urls s' = visited_urls s"
  by (auto simp: find_navigation_links_def Let_def split: sum.splits option.splits if_splits)

lemma dict_set_keys: "fst ` set (dict_set d k v) = insert k (fst ` set d)"
  by (induction d k v rule: dict_set.induct) auto

lemma dict_set_length: "length (dict_set d k v) = (if k \<in> fst ` set d then length d else Suc (length d))"
  by (induction d k v rule: dict_set.induct) (auto simp: rev_image_eqI)

lemma card_diff_insert_le: "finite K \<Longrightarrow> card (K - insert u V) \<le> card (K - V)"
  by (rule card_mono) auto

lemma card_diff_insert_less: "finite K \<Longrightarrow> u \<in> K \<Longrightarrow> u \<notin> V \<Longrightarrow> card (K - insert u V) < card (K - V)"
  by (rule psubset_card_mono) auto

lemma crawl_step_decreases:
  assumes "crawl_cond mp st"
  shows "crawl_measure mp (crawl_step e st) < crawl_measure mp st
       \<or> (crawl_measure mp (crawl_step e st) = crawl_measure mp st
          \<and> length (urls_to_visit (crawl_step e st)) < length (urls_to_visit st))"
proof -
  let ?u = "hd (urls_to_visit st)"
  let ?K = "fst ` set (pages_data st)"
  let ?V = "visited_urls (self st)"
  from assms have ne: "urls_to_visit st \<noteq> []" and lt: "int (length (pages_data st)) < mp"
    by (simp_all add: crawl_cond_def)
  have fin: "finite ?K" by simp
  show ?thesis
  proof (cases "?u \<in> ?V")
    case True
    with ne show ?thesis by (simp add: crawl_step_def crawl_measure_def Let_def)
  next
    case notvis: False
    show ?thesis
    proof (cases "get_html_content e (length (requested st)) ?u")
      case None
      with notvis ne show ?thesis by (simp add: crawl_step_def crawl_measure_def Let_def)
    next
      case (Some hs)
      obtain html soup where hs: "hs = (html, soup)" by (cases hs)
      let ?self1 = "(self st)\<lparr>visited_urls := insert ?u ?V\<rparr>"
      let ?failed = "st\<lparr>self := ?self1, urls_to_visit := tl (urls_to_visit st),
                         requested := requested st @ [?u]\<rparr>"
      have failed: "crawl_measure mp ?failed < crawl_measure mp st
         \<or> (crawl_measure mp ?failed = crawl_measure mp st
          \<and> length (urls_to_visit ?failed) < length (urls_to_visit st))"
      proof (cases "?u \<in> ?K")
        case True
        with notvis card_diff_insert_less[OF fin, of ?u ?V] show ?thesis
          by (simp add: crawl_measure_def)
      next
        case False
        then have "?K - insert ?u ?V = ?K - ?V" by auto
        with ne show ?thesis by (simp add: crawl_measure_def)
      qed
      show ?thesis
      proof (cases "find_images (urllib e) soup ?u")
        case (Inl ex)
        with notvis Some hs failed show ?thesis by (simp add: crawl_step_def Let_def)
      next
        case (Inr imgs)
        show ?thesis
        proof (cases "find_navigation_links (urllib e) ?self1 soup ?u")
          case (Inl ex)
          with notvis Some hs failed Inr show ?thesis by (simp add: crawl_step_def Let_def)
        next
          case fn: (Inr r)
          obtain page_links self2 where r: "r = (page_links, self2)" by (cases r)
          from fn r have v2: "visited_urls self2 = insert ?u ?V"
            using find_navigation_links_visited[of "urllib e" ?self1 soup ?u page_links self2] by simp
          let ?rec = "\<lparr>title = page_title soup, html_content = html, images = imgs,
                        links_found = length page_links, images_count = length imgs\<rparr>"
          let ?st' = "\<lparr>self = self2, pages_data = dict_set (pages_data st) ?u ?rec,
                        urls_to_visit = enqueue (visited_urls self2) (set_iter e page_links)
                                          (tl (urls_to_visit st)),
                        requested = requested st @ [?u]\<rparr>"
          have step: "crawl_step e st = ?st'"
            using notvis Some hs Inr fn r by (simp add: crawl_step_def Let_def)
          have "crawl_measure mp ?st' < crawl_measure mp st"
          proof (cases "?u \<in> ?K")
            case True
            with notvis card_diff_insert_less[OF fin, of ?u ?V] show ?thesis
              by (simp add: crawl_measure_def dict_set_keys dict_set_length v2 insert_absorb)
          next
            case False
            then have "insert ?u ?K - insert ?u ?V = ?K - ?V" by auto
            with False lt show ?thesis
              by (simp add: crawl_measure_def dict_set_keys dict_set_length v2)
          qed
          with step show ?thesis by simp
        qed
      qed
    qed
  qed
qed

termination crawl_loop
proof (relation "measures [\<lambda>(e, mp, st). crawl_measure mp st, \<lambda>(e, mp, st). length (urls_to_visit st)]")
  show "wf (measures [\<lambda>(e, mp, st). crawl_measure mp st, \<lambda>(e, mp, st). length (urls_to_visit st)])"
    by simp
next
  fix e max_pages st
  assume "crawl_cond max_pages st"
  from crawl_step_decreases[OF this, of e]
  show "((e, max_pages, crawl_step e st), e, max_pages, st)
       \<in> measures [\<lambda>(e, mp, st). crawl_measure mp st, \<lambda>(e, mp, st). length (urls_to_visit st)]"
    by auto
qed

declare crawl_loop.simps [simp del]

subsection \<open>Invariants of the loop\<close>

lemma crawl_step_cases [consumes 1, case_names skip fetch_failed page_failed stored]:
  assumes "urls_to_visit st = u # q"
  obtains
    "u \<in> visited_urls (self st)" "crawl_step e st = st\<lparr>urls_to_visit := q\<rparr>"
  | "u \<notin> visited_urls (self st)" "get_html_content e (length (requested st)) u = None"
    "crawl_step e st = st\<lparr>urls_to_visit := q, requested := requested st @ [u]\<rparr>"
  | html soup where "u \<notin> visited_urls (self st)"
    "get_html_content e (length (requested st)) u = Some (html, soup)"
    "(\<exists>ex. find_images (urllib e) soup u = Inl ex)
     \<or> (\<exists>ex. find_navigation_links (urllib e)
                ((self st)\<lparr>visited_urls := insert u (visited_urls (self st))\<rparr>) soup u = Inl ex)"
    "crawl_step e st = st\<lparr>self := (self st)\<lparr>visited_urls := insert u (visited_urls (self st))\<rparr>,
                           urls_to_visit := q, requested := requested st @ [u]\<rparr>"
  | html soup imgs page_links self2 where "u \<notin> visited_urls (self st)"
    "get_html_content e (length (requested st)) u = Some (html, soup)"
    "find_images (urllib e) soup u = Inr imgs"
    "find_navigation_links (urllib e)
       ((self st)\<lparr>visited_urls := insert u (visited_urls (self st))\<rparr>) soup u
       = Inr (page_links, self2)"
    "visited_urls self2 = insert u (visited_urls (self st))"
    "crawl_step e st =
       \<lparr>self = self2,
        pages_data = dict_set (pages_data st) u
          \<lparr>title = page_title soup, html_content = html, images = imgs,
           links_found = length page_links, images_count = length imgs\<rparr>,
        urls_to_visit = enqueue (insert u (visited_urls (self st))) (set_iter e page_links) q,
        requested = requested st @ [u]\<rparr>"
proof (cases "u \<in> visited_urls (self st)")
  case True
  with assms that(1) show ?thesis by (simp add: crawl_step_def Let_def)
next
  case notvis: False
  show ?thesis
  proof (cases "get_html_content e (length (requested st)) u")
    case None
    with assms notvis that(2) show ?thesis by (simp add: crawl_step_def Let_def)
  next
    case (Some hs)
    obtain html soup where hs: "hs = (html, soup)" by (cases hs)
    show ?thesis
    proof (cases "find_images (urllib e) soup u")
      case (Inl ex)
      with assms notvis Some hs that(3)[of html soup] show ?thesis
        by (simp add: crawl_step_def Let_def)
    next
      case (Inr imgs)
      show ?thesis
      proof (cases "find_navigation_links (urllib e)
                ((self st)\<lparr>visited_urls := insert u (visited_urls (self st))\<rparr>) soup u")
        case (Inl ex)
        with assms notvis Some hs Inr that(3)[of html soup] show ?thesis
          by (simp add: crawl_step_def Let_def)
      next
        case fn: (Inr r)
        obtain page_links self2 where r: "r = (page_links, self2)" by (cases r)
        from fn r have v2: "visited_urls self2 = insert u (visited_urls (self st))"
          using find_navigation_links_visited[of "urllib e" _ soup u page_links self2] by simp
        with assms notvis Some hs Inr fn r that(4)[of html soup imgs page_links self2]
        show ?thesis by (simp add: crawl_step_def Let_def)
      qed
    qed
  qed
qed

lemma enqueue_distinct: "distinct q \<Longrightarrow> distinct (enqueue V ls q)"
  by (induction V ls q rule: enqueue.induct) auto

lemma enqueue_disjoint: "V \<inter> set q = {} \<Longrightarrow> V \<inter> set (enqueue V ls q) = {}"
  by (induction V ls q rule: enqueue.induct) auto

lemma enqueue_set: "set (enqueue V ls q) = set q \<union> (set ls - V)"
  by (induction V ls q rule: enqueue.induct) auto

lemma dict_set_distinct: "distinct (map fst d) \<Longrightarrow> distinct (map fst (dict_set d k v))"
  by (induction d k v rule: dict_set.induct) (auto simp: dict_set_keys)

lemma crawl_step_inv:
  assumes "crawl_inv st" "urls_to_visit st \<noteq> []"
  shows "crawl_inv (crawl_step e st)"
proof -
  from assms(2) obtain u q where uq: "urls_to_visit st = u # q" by (cases "urls_to_visit st") auto
  from assms(1) uq have d: "distinct q" "u \<notin> set q" and dis: "visited_urls (self st) \<inter> set q = {}"
    and keys: "fst ` set (pages_data st) \<subseteq> visited_urls (self st)"
    and dk: "distinct (map fst (pages_data st))"
    by (auto simp: crawl_inv_def)
  from uq show ?thesis
  proof (cases rule: crawl_step_cases[where e = e])
    case skip
    with d dis keys dk show ?thesis by (simp add: crawl_inv_def)
  next
    case fetch_failed
    with d dis keys dk show ?thesis by (simp add: crawl_inv_def)
  next
    case (page_failed html soup)
    with d dis keys dk show ?thesis by (auto simp: crawl_inv_def)
  next
    case (stored html soup imgs page_links self2)
    from d dis have "insert u (visited_urls (self st)) \<inter> set q = {}" by auto
    from enqueue_disjoint[OF this] enqueue_distinct[OF d(1)] stored keys dk
    show ?thesis by (auto simp: crawl_inv_def dict_set_keys dict_set_distinct)
  qed
qed

lemma crawl_step_bound:
  assumes "crawl_cond mp st"
  shows "int (length (pages_data (crawl_step e st))) \<le> mp"
proof -
  from assms obtain u q where uq: "urls_to_visit st = u # q"
    by (cases "urls_to_visit st") (auto simp: crawl_cond_def)
  from assms have lt: "int (length (pages_data st)) < mp" by (simp add: crawl_cond_def)
  from uq show ?thesis
    by (cases rule: crawl_step_cases[where e = e]) (use lt in \<open>auto simp: dict_set_length\<close>)
qed

lemma crawl_states_inv:
  assumes "st \<in> crawl_states e mp st0" "crawl_inv st0"
  shows "crawl_inv st"
  using assms by (induction rule: crawl_states.induct) (auto simp: crawl_cond_def intro: crawl_step_inv)

lemma crawl_states_bound:
  assumes "st \<in> crawl_states e mp st0" "int (length (pages_data st0)) \<le> mp"
  shows "int (length (pages_data st)) \<le> mp"
  using assms by (induction rule: crawl_states.induct) (auto intro: crawl_step_bound)

lemma crawl_loop_states:
  "st \<in> crawl_states e mp st0 \<Longrightarrow> crawl_loop e mp st \<in> crawl_states e mp st0"
proof (induction e mp st rule: crawl_loop.induct)
  case (1 e mp st)
  show ?case
  proof (cases "crawl_cond mp st")
    case True
    with 1 show ?thesis by (simp add: crawl_states.step crawl_loop.simps[of e mp st])
  next
    case False
    with 1 show ?thesis by (simp add: crawl_loop.simps[of e mp st])
  qed
qed

lemma crawl_start_inv: "crawl_inv (crawl_start WebScraper_init start_url)"
  by (simp add: crawl_inv_def crawl_start_def WebScraper_init_def)

text \<open>
  Claim C1. In a crawl started on a fresh \<open>WebScraper\<close>, no URL is both in \<open>visited_urls\<close>
  and in \<open>urls_to_visit\<close> whenever the loop condition is evaluated; the returned page map has
  at most \<open>max_pages\<close> entries (for a page budget that is not negative), one entry per key,
  and only visited URLs as keys.
\<close>

theorem crawl_website_invariants:
  "(\<forall>st \<in> crawl_states e max_pages (crawl_start WebScraper_init start_url).
       visited_urls (self st) \<inter> set (urls_to_visit st) = {})
   \<and> (0 \<le> max_pages \<longrightarrow>
        int (length (pages_data (crawl_website e WebScraper_init start_url max_pages)))
          \<le> max_pages)
   \<and> distinct (map fst (pages_data (crawl_website e WebScraper_init start_url max_pages)))
   \<and> fst ` set (pages_data (crawl_website e WebScraper_init start_url max_pages))
        \<subseteq> visited_urls (self (crawl_website e WebScraper_init start_url max_pages))"
proof -
  let ?st0 = "crawl_start WebScraper_init start_url"
  have fin: "crawl_website e WebScraper_init start_url max_pages \<in> crawl_states e max_pages ?st0"
    unfolding crawl_website_def by (rule crawl_loop_states) (rule crawl_states.start)
  have a: "\<forall>st \<in> crawl_states e max_pages ?st0. crawl_inv st"
    using crawl_states_inv crawl_start_inv by blast
  have b: "0 \<le> max_pages \<longrightarrow>
        int (length (pages_data (crawl_website e WebScraper_init start_url max_pages))) \<le> max_pages"
    using crawl_states_bound[OF fin] by (simp add: crawl_start_def)
  from a fin b show ?thesis by (auto simp: crawl_inv_def)
qed

theorem crawl_website_invariants_witness:
  "crawl_step env_retry (crawl_start WebScraper_init ''https://a.com'')
     \<in> crawl_states env_retry 10 (crawl_start WebScraper_init ''https://a.com'')
   \<and> visited_urls (self (crawl_step env_retry (crawl_start WebScraper_init ''https://a.com'')))
       \<inter> set (urls_to_visit (crawl_step env_retry (crawl_start WebScraper_init ''https://a.com'')))
       = {}
   \<and> int (length (pages_data (crawl_website env_retry WebScraper_init ''https://a.com'' 10))) \<le> 10
   \<and> distinct (map fst (pages_data (crawl_website env_retry WebScraper_init ''https://a.com'' 10)))"
proof -
  have c: "crawl_cond 10 (crawl_start WebScraper_init ''https://a.com'')"
    by (simp add: crawl_cond_def crawl_start_def)
  have m: "crawl_step env_retry (crawl_start WebScraper_init ''https://a.com'')
     \<in> crawl_states env_retry 10 (crawl_start WebScraper_init ''https://a.com'')"
    by (rule crawl_states.step[OF crawl_states.start c])
  from crawl_website_invariants[of env_retry 10 "''https://a.com''"] m show ?thesis
    by auto
qed

subsection \<open>A failed fetch\<close>

lemma crawl_step_requested:
  assumes "urls_to_visit st = u # q" "u \<notin> visited_urls (self st)"
  shows "requested (crawl_step e st) = requested st @ [u]"
  using assms(1)
  by (cases rule: crawl_step_cases[where e = e]) (use assms(2) in auto)

lemma crawl_step_new_links:
  assumes "urls_to_visit st = u # q" "l \<in> set (urls_to_visit (crawl_step e st))" "l \<notin> set q"
  shows "\<exists>html soup ls s2. get_html_content e (length (requested st)) u = Some (html, soup)
           \<and> find_navigation_links (urllib e)
                ((self st)\<lparr>visited_urls := insert u (visited_urls (self st))\<rparr>) soup u = Inr (ls, s2)
           \<and> l \<in> set (set_iter e ls)"
  using assms(1)
proof (cases rule: crawl_step_cases[where e = e])
  case (stored html soup imgs page_links self2)
  with assms(2,3) have "l \<in> set (set_iter e page_links)" by (auto simp: enqueue_set)
  with stored show ?thesis by blast
qed (use assms in auto)

lemma crawl_visited_fetched:
  assumes "st \<in> crawl_states e mp (crawl_start WebScraper_init s)"
    and "u \<in> visited_urls (self st)"
  shows "\<exists>k < length (requested st). requested st ! k = u \<and> get_html_content e k u \<noteq> None"
  using assms
proof (induction arbitrary: u rule: crawl_states.induct)
  case start
  then show ?case by (simp add: crawl_start_def WebScraper_init_def)
next
  case (step st)
  from step.hyps(2) obtain v q where vq: "urls_to_visit st = v # q"
    by (cases "urls_to_visit st") (auto simp: crawl_cond_def)
  have old: "\<exists>k < length (requested st @ [v]). (requested st @ [v]) ! k = u
                \<and> get_html_content e k u \<noteq> None"
    if "u \<in> visited_urls (self st)"
  proof -
    from step.IH[OF that] obtain k where "k < length (requested st)" "requested st ! k = u"
      "get_html_content e k u \<noteq> None" by blast
    then show ?thesis by (auto simp: nth_append intro!: exI[of _ k])
  qed
  have new: "\<exists>k < length (requested st @ [v]). (requested st @ [v]) ! k = v
                \<and> get_html_content e k v \<noteq> None"
    if "get_html_content e (length (requested st)) v \<noteq> None"
    using that by (auto intro!: exI[of _ "length (requested st)"])
  from vq show ?case
  proof (cases rule: crawl_step_cases[where e = e])
    case skip
    with step.prems step.IH show ?thesis by simp
  next
    case fetch_failed
    with step.prems old show ?thesis by simp
  next
    case (page_failed html soup)
    with step.prems old new show ?thesis by (cases "u = v") auto
  next
    case (stored html soup imgs page_links self2)
    with step.prems old new show ?thesis by (cases "u = v") auto
  qed
qed

text \<open>
  Claim C3, as amended. When the fetch of the URL at the head of the queue fails, the pass
  only removes it from \<open>urls_to_visit\<close> and logs the request: the URL is then neither queued,
  nor visited, nor a key of \<open>pages_data\<close>, and the loop does not retry it on its own. The
  failure is not remembered: a URL all of whose requests have failed is not in
  \<open>visited_urls\<close>, so when a page that is fetched and processed later lists it among its
  navigation links it is queued again; and whatever URL is at the head of the queue in a
  later pass is requested in that pass, also when it was requested before. (A URL enters
  the queue only in this way; whether the loop reaches the queued URL depends on the page
  budget.)
\<close>

theorem crawl_failed_fetch:
  assumes "st \<in> crawl_states e max_pages (crawl_start WebScraper_init start_url)"
    and "urls_to_visit st = v # q"
  shows "(get_html_content e (length (requested st)) v = None \<longrightarrow>
            crawl_step e st = st\<lparr>urls_to_visit := q, requested := requested st @ [v]\<rparr>
            \<and> v \<notin> set (urls_to_visit (crawl_step e st))
            \<and> v \<notin> visited_urls (self (crawl_step e st))
            \<and> v \<notin> fst ` set (pages_data (crawl_step e st)))
       \<and> requested (crawl_step e st) = requested st @ [v]
       \<and> (\<forall>u. (\<forall>k < length (requested st).
                    requested st ! k = u \<longrightarrow> get_html_content e k u = None)
              \<longrightarrow> u \<notin> visited_urls (self st))
       \<and> (\<forall>html soup imgs ls s2 u.
            get_html_content e (length (requested st)) v = Some (html, soup)
            \<and> find_images (urllib e) soup v = Inr imgs
            \<and> find_navigation_links (urllib e)
                 ((self st)\<lparr>visited_urls := insert v (visited_urls (self st))\<rparr>) soup v
                 = Inr (ls, s2)
            \<and> u \<in> set (set_iter e ls) \<and> u \<noteq> v
            \<and> (\<forall>k < length (requested st).
                    requested st ! k = u \<longrightarrow> get_html_content e k u = None)
            \<longrightarrow> u \<in> set (urls_to_visit (crawl_step e st)))
       \<and> (\<forall>l \<in> set (urls_to_visit (crawl_step e st)) - set q.
            \<exists>html soup ls s2.
              get_html_content e (length (requested st)) v = Some (html, soup)
              \<and> find_navigation_links (urllib e)
                   ((self st)\<lparr>visited_urls := insert v (visited_urls (self st))\<rparr>) soup v
                   = Inr (ls, s2)
              \<and> l \<in> set (set_iter e ls))"
proof -
  from crawl_states_inv[OF assms(1) crawl_start_inv] have inv: "crawl_inv st" .
  with assms(2) have nv: "v \<notin> visited_urls (self st)" and nq: "v \<notin> set q"
    and nk: "v \<notin> fst ` set (pages_data st)"
    by (auto simp: crawl_inv_def)
  have a: "get_html_content e (length (requested st)) v = None \<Longrightarrow>
      crawl_step e st = st\<lparr>urls_to_visit := q, requested := requested st @ [v]\<rparr>"
    using assms(2) by (cases rule: crawl_step_cases[where e = e]) (use nv in auto)
  have b: "requested (crawl_step e st) = requested st @ [v]"
    by (rule crawl_step_requested[OF assms(2) nv])
  have c: "u \<notin> visited_urls (self st)"
    if "\<forall>k < length (requested st). requested st ! k = u \<longrightarrow> get_html_content e k u = None"
    for u
  proof
    assume "u \<in> visited_urls (self st)"
    from crawl_visited_fetched[OF assms(1) this] obtain k where
      "k < length (requested st)" "requested st ! k = u" "get_html_content e k u \<noteq> None"
      by blast
    with that show False by simp
  qed
  have d: "u \<in> set (urls_to_visit (crawl_step e st))"
    if "get_html_content e (length (requested st)) v = Some (html, soup)"
      "find_images (urllib e) soup v = Inr imgs"
      "find_navigation_links (urllib e)
         ((self st)\<lparr>visited_urls := insert v (visited_urls (self st))\<rparr>) soup v = Inr (ls, s2)"
      "u \<in> set (set_iter e ls)" "u \<noteq> v"
      "\<forall>k < length (requested st). requested st ! k = u \<longrightarrow> get_html_content e k u = None"
    for html soup imgs ls s2 u
  proof -
    from c[OF that(6)] have uv: "u \<notin> visited_urls (self st)" .
    from assms(2) show ?thesis
    proof (cases rule: crawl_step_cases[where e = e])
      case (stored html' soup' imgs' page_links self2)
      with that(1,3) have "page_links = ls" by simp
      with stored that(4,5) uv show ?thesis by (simp add: enqueue_set)
    next
      case skip
      with nv show ?thesis by simp
    next
      case fetch_failed
      with that(1) show ?thesis by simp
    next
      case (page_failed html' soup')
      with that(1,2,3) show ?thesis by auto
    qed
  qed
  have A: "get_html_content e (length (requested st)) v = None \<longrightarrow>
            crawl_step e st = st\<lparr>urls_to_visit := q, requested := requested st @ [v]\<rparr>
            \<and> v \<notin> set (urls_to_visit (crawl_step e st))
            \<and> v \<notin> visited_urls (self (crawl_step e st))
            \<and> v \<notin> fst ` set (pages_data (crawl_step e st))"
  proof
    assume "get_html_content e (length (requested st)) v = None"
    from a[OF this] nv nq nk show "crawl_step e st = st\<lparr>urls_to_visit := q, requested := requested st @ [v]\<rparr>
            \<and> v \<notin> set (urls_to_visit (crawl_step e st))
            \<and> v \<notin> visited_urls (self (crawl_step e st))
            \<and> v \<notin> fst ` set (pages_data (crawl_step e st))"
      by simp
  qed
  have C: "\<forall>u. (\<forall>k < length (requested st).
                    requested st ! k = u \<longrightarrow> get_html_content e k u = None)
              \<longrightarrow> u \<notin> visited_urls (self st)"
    by (intro allI impI) (rule c)
  have D: "\<forall>html soup imgs ls s2 u.
            get_html_content e (length (requested st)) v = Some (html, soup)
            \<and> find_images (urllib e) soup v = Inr imgs
            \<and> find_navigation_links (urllib e)
                 ((self st)\<lparr>visited_urls := insert v (visited_urls (self st))\<rparr>) soup v
                 = Inr (ls, s2)
            \<and> u \<in> set (set_iter e ls) \<and> u \<noteq> v
            \<and> (\<forall>k < length (requested st).
                    requested st ! k = u \<longrightarrow> get_html_content e k u = None)
            \<longrightarrow> u \<in> set (urls_to_visit (crawl_step e st))"
    by (intro allI impI, elim conjE) (rule d)
  have E: "\<forall>l \<in> set (urls_to_visit (crawl_step e st)) - set q.
            \<exists>html soup ls s2.
              get_html_content e (length (requested st)) v = Some (html, soup)
              \<and> find_navigation_links (urllib e)
                   ((self st)\<lparr>visited_urls := insert v (visited_urls (self st))\<rparr>) soup v
                   = Inr (ls, s2)
              \<and> l \<in> set (set_iter e ls)"
  proof
    fix l assume "l \<in> set (urls_to_visit (crawl_step e st)) - set q"
    then have "l \<in> set (urls_to_visit (crawl_step e st))" "l \<notin> set q" by simp_all
    from crawl_step_new_links[OF assms(2) this] show "\<exists>html soup ls s2.
              get_html_content e (length (requested st)) v = Some (html, soup)
              \<and> find_navigation_links (urllib e)
                   ((self st)\<lparr>visited_urls := insert v (visited_urls (self st))\<rparr>) soup v
                   = Inr (ls, s2)
              \<and> l \<in> set (set_iter e ls)" .
  qed
  show ?thesis by (rule conjI[OF A conjI[OF b conjI[OF C conjI[OF D E]]]])
qed

lemma retry1: "urls_to_visit st_retry1 = [''https://a.com/b'', ''https://a.com/c'']
   \<and> get_html_content env_retry (length (requested st_retry1)) ''https://a.com/b'' = None"
  by code_simp

lemma retry1_cond: "crawl_cond 10 st_retry1"
  by code_simp

lemma retry2:
  "crawl_cond 10 st_retry2
   \<and> urls_to_visit st_retry2 = [''https://a.com/c'']
   \<and> requested st_retry2 = [''https://a.com'', ''https://a.com/b'']
   \<and> get_html_content env_retry (length (requested st_retry2)) ''https://a.com/c''
       = Some (''c'', page_c)
   \<and> find_images (urllib env_retry) page_c ''https://a.com/c'' = Inr []
   \<and> map_sum id fst (find_navigation_links (urllib env_retry)
         ((self st_retry2)\<lparr>visited_urls := insert ''https://a.com/c'' (visited_urls (self st_retry2))\<rparr>)
         page_c ''https://a.com/c'') = Inr [''https://a.com/b'']"
  by code_simp

lemma retry3:
  "urls_to_visit st_retry3 = [''https://a.com/b'']
   \<and> requested st_retry3 = [''https://a.com'', ''https://a.com/b'', ''https://a.com/c'']"
  by code_simp

theorem crawl_failed_fetch_witness:
  "st_retry3 \<in> crawl_states env_retry 10 (crawl_start WebScraper_init ''https://a.com'')
   \<and> urls_to_visit st_retry1 = [''https://a.com/b'', ''https://a.com/c'']
   \<and> get_html_content env_retry (length (requested st_retry1)) ''https://a.com/b'' = None
   \<and> ''https://a.com/b'' \<notin> set (urls_to_visit st_retry2)
   \<and> ''https://a.com/b'' \<notin> visited_urls (self st_retry2)
   \<and> requested st_retry2 = [''https://a.com'', ''https://a.com/b'']
   \<and> ''https://a.com/b'' \<in> set (urls_to_visit st_retry3)
   \<and> requested (crawl_step env_retry st_retry3)
       = [''https://a.com'', ''https://a.com/b'', ''https://a.com/c'', ''https://a.com/b'']"
proof -
  let ?A = "''https://a.com''" and ?B = "''https://a.com/b''" and ?C = "''https://a.com/c''"
  have c0: "crawl_cond 10 (crawl_start WebScraper_init ?A)"
    by (simp add: crawl_cond_def crawl_start_def)
  have m1: "st_retry1 \<in> crawl_states env_retry 10 (crawl_start WebScraper_init ?A)"
    unfolding st_retry1_def by (rule crawl_states.step[OF crawl_states.start c0])
  have m2: "st_retry2 \<in> crawl_states env_retry 10 (crawl_start WebScraper_init ?A)"
    unfolding st_retry2_def by (rule crawl_states.step[OF m1 retry1_cond])
  from retry2 have c2: "crawl_cond 10 st_retry2" by (rule conjunct1)
  have m3: "st_retry3 \<in> crawl_states env_retry 10 (crawl_start WebScraper_init ?A)"
    unfolding st_retry3_def by (rule crawl_states.step[OF m2 c2])
  have u1: "urls_to_visit st_retry1 = [?B, ?C]"
    and f1: "get_html_content env_retry (length (requested st_retry1)) ?B = None"
    using retry1 by simp_all
  have u2: "urls_to_visit st_retry2 = [?C]" and r2: "requested st_retry2 = [?A, ?B]"
    and g2: "get_html_content env_retry (length (requested st_retry2)) ?C = Some (''c'', page_c)"
    and i2: "find_images (urllib env_retry) page_c ?C = Inr []"
    using retry2 by blast+
  from retry2 obtain s2 where n2: "find_navigation_links (urllib env_retry)
         ((self st_retry2)\<lparr>visited_urls := insert ?C (visited_urls (self st_retry2))\<rparr>)
         page_c ?C = Inr ([?B], s2)"
    by (cases "find_navigation_links (urllib env_retry)
         ((self st_retry2)\<lparr>visited_urls := insert ?C (visited_urls (self st_retry2))\<rparr>)
         page_c ?C") auto
  have u3: "urls_to_visit st_retry3 = [?B]" and r3: "requested st_retry3 = [?A, ?B, ?C]"
    using retry3 by simp_all
  have fl: "\<forall>k < length (requested st_retry2).
              requested st_retry2 ! k = ?B \<longrightarrow> get_html_content env_retry k ?B = None"
    by (simp add: env_retry_def site_retry_def)
  from crawl_failed_fetch[OF m1 u1] f1
  have a: "?B \<notin> set (urls_to_visit st_retry2)" "?B \<notin> visited_urls (self st_retry2)"
    unfolding st_retry2_def by blast+
  from crawl_failed_fetch[OF m2 u2]
  have "\<forall>html soup imgs ls s2 u.
            get_html_content env_retry (length (requested st_retry2)) ?C = Some (html, soup)
            \<and> find_images (urllib env_retry) soup ?C = Inr imgs
            \<and> find_navigation_links (urllib env_retry)
                 ((self st_retry2)\<lparr>visited_urls := insert ?C (visited_urls (self st_retry2))\<rparr>)
                 soup ?C = Inr (ls, s2)
            \<and> u \<in> set (set_iter env_retry ls) \<and> u \<noteq> ?C
            \<and> (\<forall>k < length (requested st_retry2).
                    requested st_retry2 ! k = u \<longrightarrow> get_html_content env_retry k u = None)
            \<longrightarrow> u \<in> set (urls_to_visit (crawl_step env_retry st_retry2))"
    by (elim conjE)
  from this[rule_format, of "''c''" page_c "[]" "[?B]" s2 ?B] g2 i2 n2 fl
  have d: "?B \<in> set (urls_to_visit st_retry3)"
    unfolding st_retry3_def by (simp add: env_retry_def)
  from crawl_failed_fetch[OF m3 u3]
  have "requested (crawl_step env_retry st_retry3) = requested st_retry3 @ [?B]"
    by (elim conjE)
  with r3 have b: "requested (crawl_step env_retry st_retry3) = [?A, ?B, ?C, ?B]" by simp
  from m3 u1 f1 a r2 d b show ?thesis by simp
qed

text \<open>
  Claim C3 as stated fails: on \<open>site_retry\<close> the request for \<open>/b\<close> fails, the page \<open>/c\<close>
  fetched after it links to \<open>/b\<close>, and \<open>/b\<close> is requested a second time.
\<close>

theorem failed_url_fetched_again:
  "get_html_content env_retry 1 ''https://a.com/b'' = None
   \<and> get_html_content env_retry 3 ''https://a.com/b'' = None
   \<and> requested (crawl_website env_retry WebScraper_init ''https://a.com'' 10)
       = [''https://a.com'', ''https://a.com/b'', ''https://a.com/c'', ''https://a.com/b'']"
  by code_simp

subsection \<open>Failure isolation\<close>

lemma crawl_step_pages_mono: 
  assumes "urls_to_visit st \<noteq> []" 
  shows "length (pages_data st) \<le> length (pages_data (crawl_step e st))"
proof -
  from assms obtain u q where "urls_to_visit st = u # q" by (cases "urls_to_visit st") auto
  then show ?thesis
    by (cases rule: crawl_step_cases[where e = e]) (auto simp: dict_set_length)
qed

lemma crawl_loop_pages_mono: "length (pages_data st) \<le> length (pages_data (crawl_loop e mp st))"
proof (induction e mp st rule: crawl_loop.induct)
  case (1 e mp st)
  show ?case
  proof (cases "crawl_cond mp st")
    case True
    then have "urls_to_visit st \<noteq> []" by (simp add: crawl_cond_def)
    from crawl_step_pages_mono[OF this, of e] 1[OF True] True show ?thesis
      by (simp add: crawl_loop.simps[of e mp st])
  next
    case False
    then show ?thesis by (simp add: crawl_loop.simps[of e mp st])
  qed
qed

lemma crawl_loop_empty_queue: "urls_to_visit st = [] \<Longrightarrow> crawl_loop e mp st = st"
  by (simp add: crawl_cond_def crawl_loop.simps[of e mp st])

lemma crawl_failed_pass:
  assumes "st \<in> crawl_states e max_pages (crawl_start WebScraper_init start_url)"
    and "crawl_cond max_pages st"
    and "urls_to_visit st = u # q"
    and "get_html_content e (length (requested st)) u = None"
  shows "pages_data (crawl_step e st) = pages_data st"
    and "u \<notin> fst ` set (pages_data (crawl_step e st))"
    and "urls_to_visit (crawl_step e st) = q"
    and "q = v # q' \<Longrightarrow> crawl_cond max_pages (crawl_step e st)"
    and "q = v # q' \<Longrightarrow> requested (crawl_step e (crawl_step e st)) = requested st @ [u, v]"
proof -
  from crawl_states_inv[OF assms(1) crawl_start_inv] have inv: "crawl_inv st" .
  with assms(3) have nv: "u \<notin> visited_urls (self st)"
    and nk: "u \<notin> fst ` set (pages_data st)"
    and dis: "visited_urls (self st) \<inter> set q = {}"
    by (auto simp: crawl_inv_def)
  have s1: "crawl_step e st = st\<lparr>urls_to_visit := q, requested := requested st @ [u]\<rparr>"
    using assms(3) by (cases rule: crawl_step_cases[where e = e]) (use nv assms(4) in auto)
  show "pages_data (crawl_step e st) = pages_data st" by (simp add: s1)
  show "u \<notin> fst ` set (pages_data (crawl_step e st))" using nk by (simp add: s1)
  show "urls_to_visit (crawl_step e st) = q" by (simp add: s1)
  show "crawl_cond max_pages (crawl_step e st)" if "q = v # q'"
    using assms(2) that by (simp add: s1 crawl_cond_def)
  show "requested (crawl_step e (crawl_step e st)) = requested st @ [u, v]" if "q = v # q'"
  proof -
    from dis that have "v \<notin> visited_urls (self st)" by auto
    with crawl_step_requested[of "crawl_step e st" v q' e] that show ?thesis by (simp add: s1)
  qed
qed

lemma crawl_website_empty_iff:
  assumes "1 \<le> max_pages"
  shows "pages_data (crawl_website e WebScraper_init start_url max_pages) = [] \<longleftrightarrow>
            get_html_content e 0 start_url = None
            \<or> (\<exists>html soup. get_html_content e 0 start_url = Some (html, soup)
                 \<and> ((\<exists>ex. find_images (urllib e) soup start_url = Inl ex)
                      \<or> (\<exists>ex. find_navigation_links (urllib e)
                                 (WebScraper_init\<lparr>visited_urls := {start_url}\<rparr>) soup start_url
                               = Inl ex)))"
proof -
  let ?st0 = "crawl_start WebScraper_init start_url"
  have c0: "crawl_cond max_pages ?st0"
    using assms by (simp add: crawl_cond_def crawl_start_def)
  then have w: "crawl_website e WebScraper_init start_url max_pages
      = crawl_loop e max_pages (crawl_step e ?st0)"
    by (simp add: crawl_website_def crawl_loop.simps[of e max_pages ?st0])
  have u0: "urls_to_visit ?st0 = start_url # []" by (simp add: crawl_start_def)
  from u0 show ?thesis
  proof (cases rule: crawl_step_cases[where e = e])
    case skip
    then show ?thesis by (simp add: crawl_start_def WebScraper_init_def)
  next
    case fetch_failed
    then have "crawl_loop e max_pages (crawl_step e ?st0) = crawl_step e ?st0"
      by (simp add: crawl_loop_empty_queue)
    with fetch_failed w show ?thesis by (simp add: crawl_start_def)
  next
    case (page_failed html soup)
    then have "crawl_loop e max_pages (crawl_step e ?st0) = crawl_step e ?st0"
      by (simp add: crawl_loop_empty_queue)
    with page_failed w show ?thesis by (simp add: crawl_start_def WebScraper_init_def)
  next
    case (stored html soup imgs page_links self2)
    then have "1 \<le> length (pages_data (crawl_step e ?st0))"
      by (simp add: crawl_start_def)
    with crawl_loop_pages_mono[of "crawl_step e ?st0" e max_pages] w
    have "pages_data (crawl_website e WebScraper_init start_url max_pages) \<noteq> []" by auto
    with stored show ?thesis by (simp add: crawl_start_def WebScraper_init_def)
  qed
qed

text \<open>
  Claim C9, as amended. When the fetch made in a pass of the loop fails, \<open>pages_data\<close> is
  left as it was, the failed URL has no entry, and the queue is the rest of the queue; if
  that rest is not empty the loop goes on and its next pass requests the next queued URL.
  For a page budget of at least one, the returned map is empty exactly when the seed's
  fetch fails or the extraction of images or links from the seed's document raises.
\<close>

theorem crawl_failure_isolated:
  "(st \<in> crawl_states e max_pages (crawl_start WebScraper_init start_url)
      \<and> crawl_cond max_pages st
      \<and> urls_to_visit st = u # q
      \<and> get_html_content e (length (requested st)) u = None
    \<longrightarrow> pages_data (crawl_step e st) = pages_data st
        \<and> u \<notin> fst ` set (pages_data (crawl_step e st))
        \<and> urls_to_visit (crawl_step e st) = q
        \<and> (\<forall>v q'. q = v # q'
              \<longrightarrow> crawl_cond max_pages (crawl_step e st)
                  \<and> requested (crawl_step e (crawl_step e st)) = requested st @ [u, v]))
   \<and> (1 \<le> max_pages
    \<longrightarrow> (pages_data (crawl_website e WebScraper_init start_url max_pages) = [] \<longleftrightarrow>
            get_html_content e 0 start_url = None
            \<or> (\<exists>html soup. get_html_content e 0 start_url = Some (html, soup)
                 \<and> ((\<exists>ex. find_images (urllib e) soup start_url = Inl ex)
                      \<or> (\<exists>ex. find_navigation_links (urllib e)
                                 (WebScraper_init\<lparr>visited_urls := {start_url}\<rparr>) soup start_url
                               = Inl ex)))))"
proof (intro conjI impI)
  assume h: "st \<in> crawl_states e max_pages (crawl_start WebScraper_init start_url)
      \<and> crawl_cond max_pages st
      \<and> urls_to_visit st = u # q
      \<and> get_html_content e (length (requested st)) u = None"
  then have h1: "st \<in> crawl_states e max_pages (crawl_start WebScraper_init start_url)"
    and h2: "crawl_cond max_pages st" and h3: "urls_to_visit st = u # q"
    and h4: "get_html_content e (length (requested st)) u = None"
    by simp_all
  show "pages_data (crawl_step e st) = pages_data st"
    by (rule crawl_failed_pass(1)[OF h1 h2 h3 h4])
  show "u \<notin> fst ` set (pages_data (crawl_step e st))"
    by (rule crawl_failed_pass(2)[OF h1 h2 h3 h4])
  show "urls_to_visit (crawl_step e st) = q"
    by (rule crawl_failed_pass(3)[OF h1 h2 h3 h4])
  show "\<forall>v q'. q = v # q'
              \<longrightarrow> crawl_cond max_pages (crawl_step e st)
                  \<and> requested (crawl_step e (crawl_step e st)) = requested st @ [u, v]"
    using crawl_failed_pass(4,5)[OF h1 h2 h3 h4] by blast
next
  assume "1 \<le> max_pages"
  then show "pages_data (crawl_website e WebScraper_init start_url max_pages) = [] \<longleftrightarrow>
            get_html_content e 0 start_url = None
            \<or> (\<exists>html soup. get_html_content e 0 start_url = Some (html, soup)
                 \<and> ((\<exists>ex. find_images (urllib e) soup start_url = Inl ex)
                      \<or> (\<exists>ex. find_navigation_links (urllib e)
                                 (WebScraper_init\<lparr>visited_urls := {start_url}\<rparr>) soup start_url
                               = Inl ex)))"
    by (rule crawl_website_empty_iff)
qed

text \<open>
  Claim C9 as stated fails in its last part: on \<open>site_badimg\<close> the fetch of the seed
  succeeds, \<open>find_images\<close> raises inside the \<open>try\<close> block, and the returned map is empty.
\<close>

theorem seed_fetched_without_page:
  "get_html_content env_badimg 0 ''https://a.com'' = Some (''home'', page_badimg)
   \<and> find_images (urllib env_badimg) page_badimg ''https://a.com'' = Inl ValueError
   \<and> pages_data (crawl_website env_badimg WebScraper_init ''https://a.com'' 10) = []"
  by code_simp

lemma seed_cases:
  "get_html_content env_badimg 0 ''https://a.com'' = Some (''home'', page_badimg)
   \<and> find_images (urllib env_badimg) page_badimg ''https://a.com'' = Inl ValueError
   \<and> get_html_content env_retry 0 ''https://a.com/b'' = None
   \<and> get_html_content env_retry 0 ''https://a.com'' = Some (''home'', page_home)
   \<and> find_images (urllib env_retry) page_home ''https://a.com'' = Inr []
   \<and> map_sum id fst (find_navigation_links (urllib env_retry)
         (WebScraper_init\<lparr>visited_urls := {''https://a.com''}\<rparr>) page_home ''https://a.com'')
       = Inr [''https://a.com/b'', ''https://a.com/c'']"
  by code_simp

theorem crawl_failure_isolated_witness:
  "st_retry1 \<in> crawl_states env_retry 10 (crawl_start WebScraper_init ''https://a.com'')
   \<and> crawl_cond 10 st_retry1
   \<and> urls_to_visit st_retry1 = [''https://a.com/b'', ''https://a.com/c'']
   \<and> get_html_content env_retry (length (requested st_retry1)) ''https://a.com/b'' = None
   \<and> pages_data (crawl_step env_retry st_retry1) = pages_data st_retry1
   \<and> urls_to_visit (crawl_step env_retry st_retry1) = [''https://a.com/c'']
   \<and> crawl_cond 10 (crawl_step env_retry st_retry1)
   \<and> requested (crawl_step env_retry (crawl_step env_retry st_retry1))
       = requested st_retry1 @ [''https://a.com/b'', ''https://a.com/c'']
   \<and> get_html_content env_retry 0 ''https://a.com/b'' = None
   \<and> pages_data (crawl_website env_retry WebScraper_init ''https://a.com/b'' 10) = []
   \<and> get_html_content env_badimg 0 ''https://a.com'' = Some (''home'', page_badimg)
   \<and> find_images (urllib env_badimg) page_badimg ''https://a.com'' = Inl ValueError
   \<and> pages_data (crawl_website env_badimg WebScraper_init ''https://a.com'' 10) = []
   \<and> get_html_content env_retry 0 ''https://a.com'' = Some (''home'', page_home)
   \<and> pages_data (crawl_website env_retry WebScraper_init ''https://a.com'' 10) \<noteq> []"
proof -
  let ?A = "''https://a.com''" and ?B = "''https://a.com/b''" and ?C = "''https://a.com/c''"
  have c0: "crawl_cond 10 (crawl_start WebScraper_init ?A)"
    by (simp add: crawl_cond_def crawl_start_def)
  have m: "st_retry1 \<in> crawl_states env_retry 10 (crawl_start WebScraper_init ?A)"
    unfolding st_retry1_def by (rule crawl_states.step[OF crawl_states.start c0])
  have u: "urls_to_visit st_retry1 = [?B, ?C]"
    and f: "get_html_content env_retry (length (requested st_retry1)) ?B = None"
    using retry1 by blast+
  from crawl_failure_isolated[of st_retry1 env_retry 10 ?A ?B "[?C]"] m retry1_cond u f
  have iso: "pages_data (crawl_step env_retry st_retry1) = pages_data st_retry1"
    "urls_to_visit (crawl_step env_retry st_retry1) = [?C]"
    "crawl_cond 10 (crawl_step env_retry st_retry1)"
    "requested (crawl_step env_retry (crawl_step env_retry st_retry1))
       = requested st_retry1 @ [?B, ?C]"
    by blast+
  have gb: "get_html_content env_badimg 0 ?A = Some (''home'', page_badimg)"
    and ib: "find_images (urllib env_badimg) page_badimg ?A = Inl ValueError"
    and gn: "get_html_content env_retry 0 ?B = None"
    and gh: "get_html_content env_retry 0 ?A = Some (''home'', page_home)"
    and ih: "find_images (urllib env_retry) page_home ?A = Inr []"
    and nh: "map_sum id fst (find_navigation_links (urllib env_retry)
         (WebScraper_init\<lparr>visited_urls := {?A}\<rparr>) page_home ?A) = Inr [?B, ?C]"
    using seed_cases by blast+
  have one: "(1::int) \<le> 10" by simp
  from crawl_failure_isolated[where e = env_retry and max_pages = 10 and start_url = ?B] one gn
  have e1: "pages_data (crawl_website env_retry WebScraper_init ?B 10) = []"
    by blast
  from crawl_failure_isolated[where e = env_badimg and max_pages = 10 and start_url = ?A] one
  have "pages_data (crawl_website env_badimg WebScraper_init ?A 10) = [] \<longleftrightarrow>
            get_html_content env_badimg 0 ?A = None
            \<or> (\<exists>html soup. get_html_content env_badimg 0 ?A = Some (html, soup)
                 \<and> ((\<exists>ex. find_images (urllib env_badimg) soup ?A = Inl ex)
                      \<or> (\<exists>ex. find_navigation_links (urllib env_badimg)
                                 (WebScraper_init\<lparr>visited_urls := {?A}\<rparr>) soup ?A
                               = Inl ex)))"
    by blast
  with gb ib have e2: "pages_data (crawl_website env_badimg WebScraper_init ?A 10) = []"
    by blast
  from nh have nn: "\<And>ex. find_navigation_links (urllib env_retry)
         (WebScraper_init\<lparr>visited_urls := {?A}\<rparr>) page_home ?A \<noteq> Inl ex"
    by (cases "find_navigation_links (urllib env_retry)
         (WebScraper_init\<lparr>visited_urls := {?A}\<rparr>) page_home ?A") auto
  from crawl_failure_isolated[where e = env_retry and max_pages = 10 and start_url = ?A] one
  have "pages_data (crawl_website env_retry WebScraper_init ?A 10) = [] \<longleftrightarrow>
            get_html_content env_retry 0 ?A = None
            \<or> (\<exists>html soup. get_html_content env_retry 0 ?A = Some (html, soup)
                 \<and> ((\<exists>ex. find_images (urllib env_retry) soup ?A = Inl ex)
                      \<or> (\<exists>ex. find_navigation_links (urllib env_retry)
                                 (WebScraper_init\<lparr>visited_urls := {?A}\<rparr>) soup ?A
                               = Inl ex)))"
    by blast
  with gh ih nn have e3: "pages_data (crawl_website env_retry WebScraper_init ?A 10) \<noteq> []"
    by auto
  from m retry1_cond u f iso gn e1 gb ib e2 gh e3 show ?thesis by simp
qed

section \<open>Navigation links\<close>

subsection \<open>Cleaned URLs carry no fragment\<close>

lemma split_first_subset:
  "set (fst (split_first c s)) \<subseteq> set s" "set (snd (split_first c s)) \<subseteq> set s"
  by (auto simp: split_first_def dest: set_takeWhileD set_dropWhileD in_set_dropD)

lemma split_first_fst_free: "c \<notin> set (fst (split_first c s))"
  by (auto simp: split_first_def dest: set_takeWhileD)

lemma lower_scheme_chars: "\<forall>c \<in> set scheme_chars. lower_char c \<noteq> CHR ''#''"
  by code_simp

lemma lower_scheme_char: "c \<in> set scheme_chars \<Longrightarrow> lower_char c \<noteq> CHR ''#''"
  using lower_scheme_chars by blast

lemma split_scheme_hash:
  assumes "split_scheme u0 dflt = (sch, rest)" "CHR ''#'' \<notin> set dflt"
  shows "CHR ''#'' \<notin> set sch" and "set rest \<subseteq> set u0"
proof -
  let ?pre = "takeWhile (\<lambda>c. c \<noteq> CHR '':'') u0"
  show "CHR ''#'' \<notin> set sch"
  proof (cases "sch = dflt")
    case True
    with assms(2) show ?thesis by simp
  next
    case False
    with assms(1) have all: "\<forall>c \<in> set ?pre. c \<in> set scheme_chars" and sch: "sch = py_lower ?pre"
      by (auto simp: split_scheme_def Let_def split: if_splits)
    show ?thesis
    proof
      assume "CHR ''#'' \<in> set sch"
      then obtain c where "c \<in> set ?pre" "lower_char c = CHR ''#''"
        by (auto simp: sch py_lower_def)
      with all lower_scheme_char[of c] show False by simp
    qed
  qed
  from assms(1) show "set rest \<subseteq> set u0"
    by (auto simp: split_scheme_def Let_def split: if_splits dest: in_set_dropD)
qed

lemma splitnetloc_hash:
  assumes "splitnetloc u0 = (loc, rest)"
  shows "CHR ''#'' \<notin> set loc" and "set rest \<subseteq> set u0"
  using assms
  by (auto simp: splitnetloc_def netloc_delim_def dest: set_takeWhileD set_dropWhileD in_set_dropD)

lemma urlsplit_hash:
  assumes "urlsplit lib u0 [] = Inr (sch, loc, p, q, f)"
  shows "CHR ''#'' \<notin> set sch \<and> CHR ''#'' \<notin> set loc \<and> CHR ''#'' \<notin> set p \<and> CHR ''#'' \<notin> set q"
proof -
  define url1 where "url1 = filter (\<lambda>c. \<not> unsafe_url_byte c) (lstrip_with c0_control_or_space u0)"
  obtain sch2 url2 where ss: "split_scheme url1 [] = (sch2, url2)" by (cases "split_scheme url1 []")
  obtain loc2 url3 where nl: "(if take 2 url2 = ''//'' then splitnetloc url2 else ([], url2)) = (loc2, url3)"
    by (cases "(if take 2 url2 = ''//'' then splitnetloc url2 else ([], url2))")
  obtain url4 f2 where fr: "(if CHR ''#'' \<in> set url3 then split_first (CHR ''#'') url3 else (url3, [])) = (url4, f2)"
    by (cases "(if CHR ''#'' \<in> set url3 then split_first (CHR ''#'') url3 else (url3, []))")
  obtain url5 q2 where qu: "(if CHR ''?'' \<in> set url4 then split_first (CHR ''?'') url4 else (url4, [])) = (url5, q2)"
    by (cases "(if CHR ''?'' \<in> set url4 then split_first (CHR ''?'') url4 else (url4, []))")
  from assms have res: "sch = sch2" "loc = loc2" "p = url5" "q = q2"
    by (auto simp: urlsplit_def Let_def strip_with_def url1_def[symmetric] ss nl fr qu split: if_splits)
  from split_scheme_hash[OF ss] have h1: "CHR ''#'' \<notin> set sch2" by simp
  from nl have h2: "CHR ''#'' \<notin> set loc2"
    by (auto split: if_splits dest: splitnetloc_hash(1))
  from fr have h4: "CHR ''#'' \<notin> set url4"
    using split_first_fst_free[of "CHR ''#''" url3] by (auto split: if_splits)
  from qu have "set url5 \<subseteq> set url4" "set q2 \<subseteq> set url4"
    using split_first_subset[of "CHR ''?''" url4] by (auto split: if_splits)
  with h4 have "CHR ''#'' \<notin> set url5" "CHR ''#'' \<notin> set q2" by auto
  with h1 h2 res show ?thesis by simp
qed

lemma splitparams_subset:
  "set (fst (splitparams u)) \<subseteq> set u" "set (snd (splitparams u)) \<subseteq> set u"
proof -
  have a: "set (rev (takeWhile (\<lambda>c. c \<noteq> CHR ''/'') (rev u))) \<subseteq> set u"
    by (auto dest: set_takeWhileD)
  show "set (fst (splitparams u)) \<subseteq> set u" "set (snd (splitparams u)) \<subseteq> set u"
    using a split_first_subset[of "CHR '';''" "rev (takeWhile (\<lambda>c. c \<noteq> CHR ''/'') (rev u))"]
      split_first_subset[of "CHR '';''" u]
    by (auto simp: splitparams_def Let_def dest: in_set_takeD)
qed

lemma urlparse_hash:
  assumes "urlparse lib u0 [] = Inr r"
  shows "CHR ''#'' \<notin> set (scheme r) \<and> CHR ''#'' \<notin> set (netloc r) \<and> CHR ''#'' \<notin> set (path r)
       \<and> CHR ''#'' \<notin> set (params r) \<and> CHR ''#'' \<notin> set (query r)"
proof -
  from assms obtain sch loc p q f where sp: "urlsplit lib u0 [] = Inr (sch, loc, p, q, f)"
    by (auto simp: urlparse_def split: sum.splits)
  from urlsplit_hash[OF sp] have h: "CHR ''#'' \<notin> set sch" "CHR ''#'' \<notin> set loc"
    "CHR ''#'' \<notin> set p" "CHR ''#'' \<notin> set q" by simp_all
  obtain p' ps where pp: "(if sch \<in> set uses_params \<and> CHR '';'' \<in> set p then splitparams p else (p, [])) = (p', ps)"
    by (cases "(if sch \<in> set uses_params \<and> CHR '';'' \<in> set p then splitparams p else (p, []))")
  then have "set p' \<subseteq> set p" "set ps \<subseteq> set p"
    using splitparams_subset[of p] by (auto split: if_splits)
  with h have "CHR ''#'' \<notin> set p'" "CHR ''#'' \<notin> set ps" by auto
  moreover from assms sp pp have "r = \<lparr>scheme = sch, netloc = loc, path = p', params = ps, query = q, fragment = f\<rparr>"
    by (simp add: urlparse_def)
  ultimately show ?thesis using h by simp
qed

lemma urlunsplit_hash:
  assumes "CHR ''#'' \<notin> set sch" "CHR ''#'' \<notin> set loc" "CHR ''#'' \<notin> set u" "CHR ''#'' \<notin> set q"
  shows "CHR ''#'' \<notin> set (urlunsplit sch loc u q [])"
  using assms by (auto simp: urlunsplit_def Let_def)

lemma clean_url_hash:
  assumes "clean_url lib a = Inr c"
  shows "CHR ''#'' \<notin> set c"
proof -
  from assms obtain r where r: "urlparse lib a [] = Inr r" and c: "c = urlunparse (r\<lparr>fragment := []\<rparr>)"
    by (auto simp: clean_url_def split: sum.splits)
  from urlparse_hash[OF r] have h: "CHR ''#'' \<notin> set (scheme r)" "CHR ''#'' \<notin> set (netloc r)"
    "CHR ''#'' \<notin> set (path r)" "CHR ''#'' \<notin> set (params r)" "CHR ''#'' \<notin> set (query r)"
    by simp_all
  then have "CHR ''#'' \<notin> set (if params r \<noteq> [] then path r @ '';'' @ params r else path r)"
    by simp
  from urlunsplit_hash[OF h(1,2) this h(5)] show ?thesis
    by (cases "params r = []") (simp_all add: c urlunparse_def)
qed

lemma nav_link_loop_hash:
  assumes "\<forall>l \<in> set links. CHR ''#'' \<notin> set l"
  shows "\<forall>l \<in> set (fst (nav_link_loop lib domain base hrefs links found)). CHR ''#'' \<notin> set l"
  using assms
proof (induction hrefs arbitrary: links found)
  case Nil
  then show ?case by simp
next
  case (Cons href rest)
  note prems = Cons.prems
  show ?case
  proof (cases "skip_href href")
    case True
    from Cons.IH[OF prems, of found] True show ?thesis by simp
  next
    case ns: False
    show ?thesis
    proof (cases "absolute_url lib domain base href")
      case (Inl e)
      with ns prems show ?thesis by simp
    next
      case (Inr a)
      show ?thesis
      proof (cases "startswith a domain")
        case False
        from Cons.IH[OF prems, of found] False ns Inr show ?thesis by simp
      next
        case sw: True
        show ?thesis
        proof (cases "clean_url lib a")
          case (Inl e)
          with ns Inr sw prems show ?thesis by simp
        next
          case cl: (Inr c)
          from clean_url_hash[OF cl] prems
          have "\<forall>l \<in> set (set_add links c). CHR ''#'' \<notin> set l" by (simp add: set_add_def)
          from Cons.IH[OF this, of True] ns Inr sw cl show ?thesis by simp
        qed
      qed
    qed
  qed
qed

lemma nav_selector_loop_hash:
  assumes "\<forall>l \<in> set links. CHR ''#'' \<notin> set l"
  shows "\<forall>l \<in> set (nav_selector_loop lib domain base soup sels links found). CHR ''#'' \<notin> set l"
  using assms
proof (induction sels arbitrary: links found)
  case Nil
  then show ?case by simp
next
  case (Cons sel sels)
  let ?r = "nav_link_loop lib domain base
              (concat (map (\<lambda>e. find_all_a_href (el e)) (select soup sel))) links found"
  obtain links' found' raised where r: "?r = (links', found', raised)" by (cases ?r)
  have "\<forall>l \<in> set (fst ?r). CHR ''#'' \<notin> set l"
    by (rule nav_link_loop_hash[OF Cons.prems])
  then have h: "\<forall>l \<in> set links'. CHR ''#'' \<notin> set l" by (simp add: r)
  from Cons.IH[OF h] Cons.IH[OF Cons.prems] h r show ?case
    by (simp add: Let_def)
qed

lemma fallback_link_loop_hash:
  assumes "\<forall>l \<in> set links. CHR ''#'' \<notin> set l"
  shows "\<forall>l \<in> set (fst (fallback_link_loop lib domain base hrefs links)). CHR ''#'' \<notin> set l"
  using assms
proof (induction hrefs arbitrary: links)
  case Nil
  then show ?case by simp
next
  case (Cons href rest)
  show ?case
  proof (cases href)
    case None
    with Cons show ?thesis by simp
  next
    case (Some h)
    show ?thesis
    proof (cases "skip_href h")
      case True
      with Some Cons show ?thesis by simp
    next
      case ns: False
      show ?thesis
      proof (cases "absolute_url lib domain base h")
        case (Inl e)
        with Some ns Cons show ?thesis by simp
      next
        case (Inr a)
        show ?thesis
        proof (cases "startswith a domain")
          case False
          with Some ns Inr Cons show ?thesis by simp
        next
          case sw: True
          show ?thesis
          proof (cases "clean_url lib a")
            case (Inl e)
            with Some ns Inr sw Cons show ?thesis by simp
          next
            case cl: (Inr c)
            from clean_url_hash[OF cl] Cons.prems
            have "\<forall>l \<in> set (set_add links c). CHR ''#'' \<notin> set l" by (simp add: set_add_def)
            from Cons.IH[OF this] Some ns Inr sw cl show ?thesis by simp
          qed
        qed
      qed
    qed
  qed
qed

lemma fallback_selector_loop_hash:
  assumes "\<forall>l \<in> set links. CHR ''#'' \<notin> set l"
  shows "\<forall>l \<in> set (fallback_selector_loop lib domain base soup sels links). CHR ''#'' \<notin> set l"
  using assms
proof (induction sels arbitrary: links)
  case Nil
  then show ?case by simp
next
  case (Cons sel sels)
  let ?r = "fallback_link_loop lib domain base
             (map (\<lambda>e. get_attr (el e) ''href'') (take 10 (select soup sel))) links"
  obtain links' raised where r: "?r = (links', raised)" by (cases ?r)
  have "\<forall>l \<in> set (fst ?r). CHR ''#'' \<notin> set l"
    by (rule fallback_link_loop_hash[OF Cons.prems])
  then have h: "\<forall>l \<in> set links'. CHR ''#'' \<notin> set l" by (simp add: r)
  from Cons.IH[OF h] h r show ?case by simp
qed

lemma find_navigation_links_hash:
  assumes "find_navigation_links lib scr soup base = Inr (links, scr')"
  shows "\<forall>l \<in> set links. CHR ''#'' \<notin> set l"
proof -
  from assms obtain domain where
    l: "links = (let ls = nav_selector_loop lib domain base soup nav_selectors [] False
                 in if ls = [] then fallback_selector_loop lib domain base soup fallback_selectors ls
                    else ls)"
    by (auto simp: find_navigation_links_def Let_def split: sum.splits)
  have a: "\<forall>l \<in> set (nav_selector_loop lib domain base soup nav_selectors [] False). CHR ''#'' \<notin> set l"
    by (rule nav_selector_loop_hash) simp
  have b: "\<forall>l \<in> set (fallback_selector_loop lib domain base soup fallback_selectors []). CHR ''#'' \<notin> set l"
    by (rule fallback_selector_loop_hash) simp
  from a b show ?thesis unfolding l by (auto simp: Let_def)
qed

subsection \<open>The fragment does not reach the cleaned URL\<close>

lemma takeWhile_stop: "\<not> P y \<Longrightarrow> takeWhile P (xs @ y # ys) = takeWhile P xs"
  by (induction xs) auto

lemma dropWhile_stop: "\<not> P y \<Longrightarrow> dropWhile P (xs @ y # ys) = dropWhile P xs @ y # ys"
  by (induction xs) auto

lemma takeWhile_shorter: "x \<in> set xs \<Longrightarrow> \<not> P x \<Longrightarrow> length (takeWhile P xs) < length xs"
  by (induction xs) auto

lemma hash_not_scheme_char: "CHR ''#'' \<notin> set scheme_chars"
  by (simp add: scheme_chars_def)

lemma split_scheme_fragment:
  assumes "CHR ''#'' \<notin> set a"
  shows "split_scheme (a @ CHR ''#'' # f) [] = (fst (split_scheme a []), snd (split_scheme a []) @ CHR ''#'' # f)"
proof (cases "CHR '':'' \<in> set a")
  case True
  let ?pre = "takeWhile (\<lambda>c. c \<noteq> CHR '':'') a"
  from True have pre: "takeWhile (\<lambda>c. c \<noteq> CHR '':'') (a @ CHR ''#'' # f) = ?pre"
    by (simp add: takeWhile_append1)
  from True have ne: "a \<noteq> []" by auto
  from True have "length ?pre < length a"
    by (rule takeWhile_shorter) simp
  then have dr: "drop (Suc (length ?pre)) (a @ CHR ''#'' # f) = drop (Suc (length ?pre)) a @ CHR ''#'' # f"
    by simp
  from True ne show ?thesis
    by (simp add: split_scheme_def Let_def pre dr del: takeWhile_append drop_append)
next
  case False
  then have "\<And>x. x \<in> set a \<Longrightarrow> x \<noteq> CHR '':''" by auto
  from takeWhile_append2[of a "\<lambda>c. c \<noteq> CHR '':''" "CHR ''#'' # f", OF this]
  have pre: "takeWhile (\<lambda>c. c \<noteq> CHR '':'') (a @ CHR ''#'' # f)
      = a @ CHR ''#'' # takeWhile (\<lambda>c. c \<noteq> CHR '':'') f"
    by simp
  from False have nos: "split_scheme a [] = ([], a)"
    by (simp add: split_scheme_def Let_def)
  have "split_scheme (a @ CHR ''#'' # f) [] = ([], a @ CHR ''#'' # f)"
    unfolding split_scheme_def Let_def pre
    using hash_not_scheme_char by simp
  with nos show ?thesis by simp
qed

lemma take2_fragment:
  assumes "CHR ''#'' \<notin> set r"
  shows "(take 2 (r @ CHR ''#'' # f) = ''//'') = (take 2 r = ''//'')"
proof (cases r)
  case Nil
  then show ?thesis by simp
next
  case (Cons x xs)
  then show ?thesis by (cases xs) auto
qed

lemma splitnetloc_fragment:
  assumes "take 2 r = ''//''"
  shows "splitnetloc (r @ CHR ''#'' # f) = (fst (splitnetloc r), snd (splitnetloc r) @ CHR ''#'' # f)"
proof -
  from assms have "2 \<le> length r" by (cases r; cases "tl r") auto
  then have d: "drop 2 (r @ CHR ''#'' # f) = drop 2 r @ CHR ''#'' # f" by simp
  have nd: "\<not> \<not> netloc_delim (CHR ''#'')" by (simp add: netloc_delim_def)
  show ?thesis
    unfolding splitnetloc_def d
    using takeWhile_stop[of "\<lambda>c. \<not> netloc_delim c" "CHR ''#''" "drop 2 r" f, OF nd]
      dropWhile_stop[of "\<lambda>c. \<not> netloc_delim c" "CHR ''#''" "drop 2 r" f, OF nd]
    by simp
qed

lemma split_first_fragment:
  assumes "CHR ''#'' \<notin> set r"
  shows "split_first (CHR ''#'') (r @ CHR ''#'' # f) = (r, f)"
proof -
  from assms have a: "\<And>x. x \<in> set r \<Longrightarrow> x \<noteq> CHR ''#''" by auto
  show ?thesis
    unfolding split_first_def
    using takeWhile_append2[of r "\<lambda>c. c \<noteq> CHR ''#''" "CHR ''#'' # f", OF a]
      dropWhile_append2[of r "\<lambda>c. c \<noteq> CHR ''#''" "CHR ''#'' # f", OF a]
    by simp
qed


lemma urlsplit_fragment:
  assumes "CHR ''#'' \<notin> set a"
  shows "urlsplit lib (a @ CHR ''#'' # f) []
       = (case urlsplit lib a [] of
            Inl e \<Rightarrow> Inl e
          | Inr (sch, loc, p, q, fr) \<Rightarrow>
              Inr (sch, loc, p, q, filter (\<lambda>c. \<not> unsafe_url_byte c) f))"
proof -
  define a1 where "a1 = filter (\<lambda>c. \<not> unsafe_url_byte c) (lstrip_with c0_control_or_space a)"
  define f1 where "f1 = filter (\<lambda>c. \<not> unsafe_url_byte c) f"
  have nc: "\<not> c0_control_or_space (CHR ''#'')" by (simp add: c0_control_or_space_def)
  have nu: "\<not> unsafe_url_byte (CHR ''#'')" by (simp add: unsafe_url_byte_def)
  have u1: "filter (\<lambda>c. \<not> unsafe_url_byte c) (lstrip_with c0_control_or_space (a @ CHR ''#'' # f))
      = a1 @ CHR ''#'' # f1"
    unfolding lstrip_with_def a1_def f1_def
    using dropWhile_stop[of c0_control_or_space "CHR ''#''" a f, OF nc] nu by simp
  from assms have h1: "CHR ''#'' \<notin> set a1"
    by (auto simp: a1_def lstrip_with_def dest: set_dropWhileD)
  obtain sch2 url2 where ss: "split_scheme a1 [] = (sch2, url2)" by (cases "split_scheme a1 []")
  from split_scheme_fragment[OF h1, of f1] ss
  have ss': "split_scheme (a1 @ CHR ''#'' # f1) [] = (sch2, url2 @ CHR ''#'' # f1)" by simp
  from split_scheme_hash(2)[OF ss] h1 have h2: "CHR ''#'' \<notin> set url2" by auto
  obtain loc2 url3 where nl: "(if take 2 url2 = ''//'' then splitnetloc url2 else ([], url2)) = (loc2, url3)"
    by (cases "(if take 2 url2 = ''//'' then splitnetloc url2 else ([], url2))")
  have nl': "(if take 2 (url2 @ CHR ''#'' # f1) = ''//'' then splitnetloc (url2 @ CHR ''#'' # f1)
              else ([], url2 @ CHR ''#'' # f1)) = (loc2, url3 @ CHR ''#'' # f1)"
  proof (cases "take 2 url2 = ''//''")
    case True
    with take2_fragment[OF h2, of f1] splitnetloc_fragment[OF True, of f1] nl show ?thesis
      by (simp del: take_append)
  next
    case False
    with take2_fragment[OF h2, of f1] nl show ?thesis by (simp del: take_append)
  qed
  from nl h2 have h3: "CHR ''#'' \<notin> set url3"
    using splitnetloc_hash(2)[of url2 loc2 url3] by (auto split: if_splits)
  have fr: "(if CHR ''#'' \<in> set url3 then split_first (CHR ''#'') url3 else (url3, [])) = (url3, [])"
    using h3 by simp
  have fr': "(if CHR ''#'' \<in> set (url3 @ CHR ''#'' # f1)
              then split_first (CHR ''#'') (url3 @ CHR ''#'' # f1)
              else (url3 @ CHR ''#'' # f1, [])) = (url3, f1)"
    using split_first_fragment[OF h3, of f1] by simp
  obtain url5 q2 where qu: "(if CHR ''?'' \<in> set url3 then split_first (CHR ''?'') url3 else (url3, [])) = (url5, q2)"
    by (cases "(if CHR ''?'' \<in> set url3 then split_first (CHR ''?'') url3 else (url3, []))")
  have l: "urlsplit lib (a @ CHR ''#'' # f) [] =
      (if (CHR ''['' \<in> set loc2 \<and> CHR '']'' \<notin> set loc2)
            \<or> (CHR '']'' \<in> set loc2 \<and> CHR ''['' \<notin> set loc2)
         then Inl ValueError
         else if CHR ''['' \<in> set loc2 \<and> CHR '']'' \<in> set loc2
                 \<and> \<not> bracketed_host_ok lib
                       (fst (split_first (CHR '']'') (snd (split_first (CHR ''['') loc2))))
         then Inl ValueError
         else if loc2 \<noteq> [] \<and> \<not> isascii loc2 \<and> \<not> nfkc_netloc_ok lib loc2
         then Inl ValueError
         else Inr (sch2, loc2, url5, q2, f1))"
    unfolding urlsplit_def Let_def u1 strip_with_def
    by (simp only: ss' nl' fr' qu split_conv rev.simps dropWhile.simps filter.simps)
  have r: "urlsplit lib a [] =
      (if (CHR ''['' \<in> set loc2 \<and> CHR '']'' \<notin> set loc2)
            \<or> (CHR '']'' \<in> set loc2 \<and> CHR ''['' \<notin> set loc2)
         then Inl ValueError
         else if CHR ''['' \<in> set loc2 \<and> CHR '']'' \<in> set loc2
                 \<and> \<not> bracketed_host_ok lib
                       (fst (split_first (CHR '']'') (snd (split_first (CHR ''['') loc2))))
         then Inl ValueError
         else if loc2 \<noteq> [] \<and> \<not> isascii loc2 \<and> \<not> nfkc_netloc_ok lib loc2
         then Inl ValueError
         else Inr (sch2, loc2, url5, q2, []))"
    unfolding urlsplit_def Let_def a1_def[symmetric] strip_with_def
    by (simp only: ss nl fr qu split_conv rev.simps dropWhile.simps filter.simps)
  show ?thesis unfolding l r f1_def by simp
qed

lemma urlparse_fragment:
  assumes "CHR ''#'' \<notin> set a"
  shows "urlparse lib (a @ CHR ''#'' # f) []
       = map_sum id (\<lambda>r. r\<lparr>fragment := filter (\<lambda>c. \<not> unsafe_url_byte c) f\<rparr>) (urlparse lib a [])"
  unfolding urlparse_def urlsplit_fragment[OF assms]
  by (auto split: sum.splits prod.splits simp: Let_def)

lemma clean_url_fragment:
  assumes "CHR ''#'' \<notin> set a"
  shows "clean_url lib (a @ CHR ''#'' # f) = clean_url lib a"
  unfolding clean_url_def urlparse_fragment[OF assms]
  by (cases "urlparse lib a []") simp_all

subsection \<open>Fragment stripping\<close>

text \<open>
  Claim C5, as amended. Every URL that \<open>find_navigation_links\<close> returns is fragment-stripped:
  it contains no \<open>#\<close>, and the cleaning step maps two absolute URLs that differ only in
  their fragment to the same URL. (\<open>find_images\<close> only makes an image source absolute and
  keeps its fragment.)
\<close>

theorem navigation_links_fragment_stripped:
  "(find_navigation_links lib scr soup base_url = Inr (links, scr')
      \<longrightarrow> (\<forall>l \<in> set links. CHR ''#'' \<notin> set l))
   \<and> (CHR ''#'' \<notin> set a
      \<longrightarrow> clean_url lib (a @ ''#'' @ f1) = clean_url lib (a @ ''#'' @ f2)
          \<and> clean_url lib (a @ ''#'' @ f1) = clean_url lib a)"
  using find_navigation_links_hash[of lib scr soup base_url links scr']
    clean_url_fragment[of a lib f1] clean_url_fragment[of a lib f2]
  by simp

lemma page_fragments_links:
  "find_navigation_links lib_any WebScraper_init page_fragments ''https://a.com''
   = Inr ([''https://a.com/p''], \<lparr>visited_urls = {}, base_domain = Some ''https://a.com''\<rparr>)"
  by code_simp

theorem navigation_links_fragment_stripped_witness:
  "find_navigation_links lib_any WebScraper_init page_fragments ''https://a.com''
     = Inr ([''https://a.com/p''], \<lparr>visited_urls = {}, base_domain = Some ''https://a.com''\<rparr>)
   \<and> CHR ''#'' \<notin> set ''https://a.com/p''
   \<and> clean_url lib_any ''https://a.com/p#a'' = clean_url lib_any ''https://a.com/p#b''"
  using page_fragments_links
    navigation_links_fragment_stripped[of lib_any WebScraper_init page_fragments
      "''https://a.com''" "[''https://a.com/p'']" "\<lparr>visited_urls = {}, base_domain = Some ''https://a.com''\<rparr>"
      "''https://a.com/p''" "''a''" "''b''"]
  by simp

text \<open>
  Claim C5 as stated fails for \<open>find_images\<close>: two image sources that differ only in their
  fragment keep their fragments and stay different, and so does a relative source.
\<close>

theorem image_urls_keep_fragment:
  "map_sum id (map url) (find_images lib_any page_image_fragments ''https://a.com'')
   = Inr [''http://x.com/p#a'', ''http://x.com/p#b'', ''https://a.com/pic.png#top'']"
  by code_simp

subsection \<open>The same-domain test\<close>

text \<open>
  Claim C2 does not hold of the code. The test \<open>absolute_url.startswith(self.base_domain)\<close>
  compares strings: for the seed \<open>https://a.com\<close> a link to the host \<open>a.com.evil.net\<close> passes
  it and is returned, although its host differs from the seed's host \<open>a.com\<close>.
\<close>

theorem foreign_host_link_returned:
  "map_sum id fst (find_navigation_links lib_any WebScraper_init page_foreign_host ''https://a.com'')
     = Inr [''https://a.com.evil.net/x'']
   \<and> map_sum id netloc (urlparse lib_any ''https://a.com.evil.net/x'' []) = Inr ''a.com.evil.net''
   \<and> map_sum id netloc (urlparse lib_any ''https://a.com'' []) = Inr ''a.com''"
  by code_simp

subsection \<open>The selector priority\<close>

text \<open>As long as no link makes \<open>urljoin\<close> or \<open>urlparse\<close> raise, the primary loop returns the
  links of the first selector that matches elements and yields an in-domain link.\<close>

lemma nav_link_loop_found_stays:
  "fst (snd (nav_link_loop lib d b hrefs links True))"
proof (induction hrefs arbitrary: links)
  case Nil
  then show ?case by simp
next
  case (Cons href rest)
  then show ?case
    by (cases "absolute_url lib d b href"; cases "clean_url lib (projr (absolute_url lib d b href))")
       auto
qed

lemma nav_link_loop_not_found:
  "\<not> fst (snd (nav_link_loop lib d b hrefs links False))
   \<Longrightarrow> fst (nav_link_loop lib d b hrefs links False) = links"
proof (induction hrefs)
  case Nil
  then show ?case by simp
next
  case (Cons href rest)
  show ?case
  proof (cases "skip_href href")
    case True
    with Cons show ?thesis by simp
  next
    case ns: False
    show ?thesis
    proof (cases "absolute_url lib d b href")
      case (Inl e)
      with ns show ?thesis by simp
    next
      case (Inr a)
      show ?thesis
      proof (cases "startswith a d")
        case False
        with ns Inr Cons show ?thesis by simp
      next
        case sw: True
        show ?thesis
        proof (cases "clean_url lib a")
          case (Inl e)
          with ns Inr sw show ?thesis by simp
        next
          case cl: (Inr c)
          with ns Inr sw Cons.prems nav_link_loop_found_stays[of lib d b rest "set_add links c"]
          show ?thesis by simp
        qed
      qed
    qed
  qed
qed

lemma nav_selector_loop_first:
  assumes "\<forall>sel \<in> set sels.
             \<not> snd (snd (nav_link_loop lib d b
                            (concat (map (\<lambda>e. find_all_a_href (el e)) (select soup sel))) [] False))"
  shows "nav_selector_loop lib d b soup sels [] False =
     (case List.find (\<lambda>sel. select soup sel \<noteq> []
                        \<and> fst (snd (nav_link_loop lib d b
                              (concat (map (\<lambda>e. find_all_a_href (el e)) (select soup sel)))
                              [] False))) sels of
        None \<Rightarrow> []
      | Some sel \<Rightarrow> fst (nav_link_loop lib d b
                           (concat (map (\<lambda>e. find_all_a_href (el e)) (select soup sel)))
                           [] False))"
  using assms
proof (induction sels)
  case Nil
  then show ?case by simp
next
  case (Cons sel sels)
  let ?r = "nav_link_loop lib d b (concat (map (\<lambda>e. find_all_a_href (el e)) (select soup sel))) [] False"
  obtain links' found' raised where r: "?r = (links', found', raised)" by (cases ?r)
  from Cons.prems r have nr: "\<not> raised" by simp
  from Cons have ih: "nav_selector_loop lib d b soup sels [] False =
     (case List.find (\<lambda>sel. select soup sel \<noteq> []
                        \<and> fst (snd (nav_link_loop lib d b
                              (concat (map (\<lambda>e. find_all_a_href (el e)) (select soup sel)))
                              [] False))) sels of
        None \<Rightarrow> []
      | Some sel \<Rightarrow> fst (nav_link_loop lib d b
                           (concat (map (\<lambda>e. find_all_a_href (el e)) (select soup sel)))
                           [] False))"
    by simp
  show ?case
  proof (cases "select soup sel = []")
    case True
    with ih show ?thesis by simp
  next
    case ne: False
    show ?thesis
    proof (cases found')
      case True
      with ne r nr show ?thesis by (simp add: Let_def)
    next
      case False
      with r nav_link_loop_not_found[of lib d b _ "[]"] have "links' = []"
        by (metis fst_conv snd_conv)
      with ne r nr False ih show ?thesis by (simp add: Let_def)
    qed
  qed
qed

text \<open>
  Claim C4 does not hold of the code. In \<open>page_nav_and_header\<close> the \<open>nav\<close> element yields the
  in-domain link \<open>/a\<close>; its second link makes \<open>urljoin\<close> raise, the \<open>except\<close> clause
  continues with the next selectors while \<open>links\<close> and \<open>nav_links_found\<close> keep their values,
  and the link \<open>/b\<close>, which only the later selector \<open>header\<close> reaches, is returned as well.
\<close>

theorem exception_lets_later_selector_in:
  "map (\<lambda>e. find_all_a_href (el e)) (select page_nav_and_header [TagSel ''nav''])
     = [[''/a'', ''ftp://['']]
   \<and> map (\<lambda>e. find_all_a_href (el e)) (select page_nav_and_header [TagSel ''header''])
     = [[''/b'']]
   \<and> absolute_url lib_any ''https://a.com'' ''https://a.com'' ''ftp://['' = Inl ValueError
   \<and> map_sum id fst (find_navigation_links lib_any WebScraper_init page_nav_and_header ''https://a.com'')
     = Inr [''https://a.com/a'', ''https://a.com/b'']"
  by code_simp

section \<open>Image locations\<close>

lemma walk_parents_closed:
  "walk_parents ps d acc = acc @ concat (map indicators_of (take (10 - d) ps))"
proof (induction ps arbitrary: d acc)
  case Nil
  then show ?case by simp
next
  case (Cons p ps)
  show ?case
  proof (cases "d < 10")
    case True
    then have "10 - d = Suc (10 - (d + 1))" by simp
    with True Cons.IH[of "d + 1" "acc @ indicators_of p"] show ?thesis by simp
  next
    case False
    then show ?thesis by simp
  qed
qed

lemma find_take_filter: "(case List.find P xs of None \<Rightarrow> [] | Some x \<Rightarrow> [f x]) = map f (take 1 (filter P xs))"
  by (induction xs) auto

lemma indicators_of_parts:
  "indicators_of current =
     (if name current \<in> set semantic_tags then [name current] else [])
     @ (case get_attr current ''id'' of None \<Rightarrow> [] | Some i \<Rightarrow> if i = [] then [] else [''#'' @ i])
     @ map (\<lambda>cls. ''.'' @ cls)
         (take 1 (filter (\<lambda>cls. \<exists>keyword \<in> set location_keywords. contains (py_lower cls) keyword)
                    (case klass current of None \<Rightarrow> [] | Some classes \<Rightarrow> classes)))"
proof -
  have "(case klass current of
          None \<Rightarrow> []
        | Some classes \<Rightarrow>
            (case List.find (\<lambda>cls. \<exists>keyword \<in> set location_keywords.
                                      contains (py_lower cls) keyword) classes of
               None \<Rightarrow> []
             | Some cls \<Rightarrow> [''.'' @ cls]))
     = map (\<lambda>cls. ''.'' @ cls)
         (take 1 (filter (\<lambda>cls. \<exists>keyword \<in> set location_keywords. contains (py_lower cls) keyword)
                    (case klass current of None \<Rightarrow> [] | Some classes \<Rightarrow> classes)))"
    by (cases "klass current") (simp_all add: find_take_filter)
  then show ?thesis
    unfolding indicators_of_def by (auto split: option.splits)
qed

text \<open>
  Claim C7. The label of an image is built from at most the ten nearest parents, taken from
  the image upwards; each contributes its tag name when that is a sectioning tag, then
  \<open>#id\<close> when it has a non-empty id, then \<open>.class\<close> for the first of its classes that
  contains a keyword (ignoring case), and nothing for its other classes. The indicators are
  reversed and joined with \<open>" > "\<close>; the heading fallback applies only when there are none.
\<close>

theorem image_location_from_parents:
  "get_image_location img =
     (if concat (map indicators_of (take 10 (parents img))) \<noteq> []
      then join '' > '' (rev (concat (map indicators_of (take 10 (parents img)))))
      else if nearby_heading img heading_tags \<noteq> []
      then join '' > '' (rev (nearby_heading img heading_tags))
      else ''Unknown section'')
   \<and> indicators_of current =
       (if name current \<in> set semantic_tags then [name current] else [])
       @ (case get_attr current ''id'' of None \<Rightarrow> [] | Some i \<Rightarrow> if i = [] then [] else [''#'' @ i])
       @ map (\<lambda>cls. ''.'' @ cls)
           (take 1 (filter (\<lambda>cls. \<exists>keyword \<in> set location_keywords.
                                     contains (py_lower cls) keyword)
                      (case klass current of None \<Rightarrow> [] | Some classes \<Rightarrow> classes)))"
  using indicators_of_parts[of current]
  by (simp add: get_image_location_def Let_def walk_parents_closed)

lemma nearby_heading_closed:
  "nearby_heading img hs =
     (case List.find (\<lambda>p. strip (get_text p) \<noteq> [])
             (concat (map (\<lambda>h. case find_previous img h of None \<Rightarrow> [] | Some p \<Rightarrow> [p]) hs)) of
        None \<Rightarrow> []
      | Some p \<Rightarrow> [''Near heading: '' @ take 50 (strip (get_text p))])"
  by (induction hs) (auto split: option.splits)

text \<open>
  Claim C6, as amended. When the walk over the parents yields no indicator, the label is
  \<open>Near heading:\<close> followed by the first 50 characters of the stripped text of the first
  heading with non-empty stripped text among: the nearest preceding \<open>h1\<close>, the nearest
  preceding \<open>h2\<close>, and so on to \<open>h6\<close>; the level decides before the distance, and only the
  nearest heading of each level is looked at. Without such a heading the label is
  \<open>Unknown section\<close>. An image preceded by no \<open>h1\<close> whose nearest preceding \<open>h2\<close> reads
  \<open>Team\<close> is labelled \<open>Near heading: Team\<close>.
\<close>

theorem image_location_from_headings:
  assumes "walk_parents (parents img) 0 [] = []"
  shows "get_image_location img =
     (case List.find (\<lambda>p. strip (get_text p) \<noteq> [])
             (concat (map (\<lambda>h. case find_previous img h of None \<Rightarrow> [] | Some p \<Rightarrow> [p])
                          heading_tags)) of
        None \<Rightarrow> ''Unknown section''
      | Some p \<Rightarrow> ''Near heading: '' @ take 50 (strip (get_text p)))
   \<and> (find_previous img ''h1'' = None \<and> find_previous img ''h2'' = Some h
        \<and> strip (get_text h) = ''Team''
      \<longrightarrow> get_image_location img = ''Near heading: Team'')"
proof -
  have a: "get_image_location img =
     (case List.find (\<lambda>p. strip (get_text p) \<noteq> [])
             (concat (map (\<lambda>h. case find_previous img h of None \<Rightarrow> [] | Some p \<Rightarrow> [p])
                          heading_tags)) of
        None \<Rightarrow> ''Unknown section''
      | Some p \<Rightarrow> ''Near heading: '' @ take 50 (strip (get_text p)))"
    using assms
    by (simp add: get_image_location_def Let_def nearby_heading_closed split: option.splits)
  have b: "find_previous img ''h1'' = None \<and> find_previous img ''h2'' = Some h
        \<and> strip (get_text h) = ''Team''
      \<longrightarrow> get_image_location img = ''Near heading: Team''"
    unfolding a by (simp add: heading_tags_def)
  from a b show ?thesis by simp
qed

lemma page_team_image:
  "walk_parents (parents (hd (find_all page_team ''img''))) 0 [] = []
   \<and> find_previous (hd (find_all page_team ''img'')) ''h1'' = None
   \<and> find_previous (hd (find_all page_team ''img'')) ''h2''
       = Some (Tag ''h2'' None [] [NavigableString ''Team''])
   \<and> strip (get_text (Tag ''h2'' None [] [NavigableString ''Team''])) = ''Team''"
  by code_simp

theorem image_location_from_headings_witness:
  "walk_parents (parents (hd (find_all page_team ''img''))) 0 [] = []
   \<and> find_previous (hd (find_all page_team ''img'')) ''h1'' = None
   \<and> find_previous (hd (find_all page_team ''img'')) ''h2''
       = Some (Tag ''h2'' None [] [NavigableString ''Team''])
   \<and> get_image_location (hd (find_all page_team ''img'')) = ''Near heading: Team''"
proof -
  from page_team_image have w: "walk_parents (parents (hd (find_all page_team ''img''))) 0 [] = []"
    by (rule conjunct1)
  from image_location_from_headings[OF w, of "Tag ''h2'' None [] [NavigableString ''Team'']"]
    page_team_image
  show ?thesis by blast
qed

text \<open>
  Claim C6 as stated fails: in \<open>page_headings\<close> the image has no indicator among its parents
  and the nearest preceding heading is \<open><h2>Team</h2>\<close>, but an \<open>h1\<close> precedes it too and
  the label names the \<open>h1\<close>.
\<close>

theorem nearest_heading_not_chosen:
  "walk_parents (parents (hd (find_all page_headings ''img''))) 0 [] = []
   \<and> map name (previous (hd (find_all page_headings ''img''))) = [''h2'', ''h1'']
   \<and> nearest_heading_label (hd (find_all page_headings ''img'')) = ''Near heading: Team''
   \<and> get_image_location (hd (find_all page_headings ''img'')) = ''Near heading: Site''"
  by code_simp

theorem image_location_from_parents_witness:
  "map name (parents (hd (find_all page_banner ''img''))) = [''section'', ''div'', ''[document]'']
   \<and> get_image_location (hd (find_all page_banner ''img'')) = ''.TopBanner > #q > section''
   \<and> indicators_of (Tag ''div'' (Some [''a'', ''TopBanner'', ''menu'']) [(''id'', ''q'')] [])
       = [''#q'', ''.TopBanner'']"
proof -
  let ?img = "hd (find_all page_banner ''img'')"
  let ?div = "Tag ''div'' (Some [''a'', ''TopBanner'', ''menu'']) [(''id'', ''q'')] []"
  have p: "map name (parents ?img) = [''section'', ''div'', ''[document]'']"
    by code_simp
  from image_location_from_parents[of ?img ?div]
  have "get_image_location ?img =
     (if concat (map indicators_of (take 10 (parents ?img))) \<noteq> []
      then join '' > '' (rev (concat (map indicators_of (take 10 (parents ?img)))))
      else if nearby_heading ?img heading_tags \<noteq> []
      then join '' > '' (rev (nearby_heading ?img heading_tags))
      else ''Unknown section'')"
    by (rule conjunct1)
  also have "\<dots> = ''.TopBanner > #q > section''"
    by code_simp
  finally have l: "get_image_location ?img = ''.TopBanner > #q > section''" .
  from image_location_from_parents[of ?img ?div]
  have "indicators_of ?div =
       (if name ?div \<in> set semantic_tags then [name ?div] else [])
       @ (case get_attr ?div ''id'' of None \<Rightarrow> [] | Some i \<Rightarrow> if i = [] then [] else [''#'' @ i])
       @ map (\<lambda>cls. ''.'' @ cls)
           (take 1 (filter (\<lambda>cls. \<exists>keyword \<in> set location_keywords.
                                     contains (py_lower cls) keyword)
                      (case klass ?div of None \<Rightarrow> [] | Some classes \<Rightarrow> classes)))"
    by (rule conjunct2)
  also have "\<dots> = [''#q'', ''.TopBanner'']"
    by code_simp
  finally have i: "indicators_of ?div = [''#q'', ''.TopBanner'']" .
  from p l i show ?thesis by simp
qed

section \<open>Image records\<close>



lemma urlunparse_nonempty: "scheme p \<noteq> [] \<Longrightarrow> urlunparse p \<noteq> []"
  by (simp add: urlunparse_def urlunsplit_def Let_def)







lemma urlunparse_update_nonempty:
  "scheme p \<noteq> [] \<Longrightarrow> urlunparse (p\<lparr>netloc := L, path := X\<rparr>) \<noteq> []"
  "scheme p \<noteq> [] \<Longrightarrow> urlunparse (p\<lparr>netloc := L, path := X, params := Y, query := Z\<rparr>) \<noteq> []"
  by (simp_all add: urlunparse_nonempty)








section \<open>Image acquisition\<close>

text \<open>When the method returns a path it has written exactly one file, at that path, in the
  format its test of the content type and of the URL suffix selects.\<close>

lemma download_and_convert_image_saved:
  assumes "download_and_convert_image e img_url output_dir filename = (Some p, files)"
  shows "\<exists>r f. session_get e img_url = Some r \<and> files = [f] \<and> file_path f = p
           \<and> (if content_type_of r \<in> set [''image/jpeg'', ''image/jpg'']
                  \<or> endswith (py_lower img_url) ''.jpg'' \<or> endswith (py_lower img_url) ''.jpeg''
               then p = path_join output_dir (filename @ ''.jpg'')
                    \<and> file_format f = JPEG \<and> file_quality f = Some 95
               else p = path_join output_dir (filename @ ''.png'') \<and> file_format f = PNG)"
proof -
  from assms obtain r where r: "session_get e img_url = Some r"
    by (cases "session_get e img_url") (auto simp: download_and_convert_image_def)
  from assms r have ok: "\<not> (400 \<le> status_code r \<and> status_code r < 600)"
    by (auto simp: download_and_convert_image_def split: if_splits)
  from assms r ok obtain img0 where i: "image_open e (content r) = Some img0"
    by (cases "image_open e (content r)") (auto simp: download_and_convert_image_def Let_def)
  define img where "img = (if mode img0 \<in> set [''RGBA'', ''LA'', ''P''] then img0
                                else if mode img0 \<noteq> ''RGB'' then img0\<lparr>mode := ''RGB''\<rparr>
                                else img0)"
  show ?thesis
  proof (cases "content_type_of r \<in> set [''image/jpeg'', ''image/jpg'']
                  \<or> endswith (py_lower img_url) ''.jpg'' \<or> endswith (py_lower img_url) ''.jpeg''")
    case True
    with assms r ok i have
      "(case img_save e img (path_join output_dir (filename @ ''.jpg'')) JPEG (Some 95) of
          Inl ex \<Rightarrow> (None, [])
        | Inr f \<Rightarrow> (Some (path_join output_dir (filename @ ''.jpg'')), [f])) = (Some p, files)"
      unfolding download_and_convert_image_def Let_def img_def by simp
    then obtain f where "img_save e img (path_join output_dir (filename @ ''.jpg'')) JPEG (Some 95) = Inr f"
      "p = path_join output_dir (filename @ ''.jpg'')" "files = [f]"
      by (auto split: sum.splits)
    with True r show ?thesis
      by (auto simp: img_save_def split: if_splits)
  next
    case False
    with assms r ok i have
      "(case img_save e img (path_join output_dir (filename @ ''.png'')) PNG None of
          Inl ex \<Rightarrow> (None, [])
        | Inr f \<Rightarrow> (Some (path_join output_dir (filename @ ''.png'')), [f])) = (Some p, files)"
      unfolding download_and_convert_image_def Let_def img_def by (simp split: if_splits)
    then obtain f where "img_save e img (path_join output_dir (filename @ ''.png'')) PNG None = Inr f"
      "p = path_join output_dir (filename @ ''.png'')" "files = [f]"
      by (auto split: sum.splits)
    with False r show ?thesis
      by (auto simp: img_save_def split: if_splits)
  qed
qed

text \<open>
  Claim C8 does not hold of the code. The image behind \<open>/logo.jpg\<close> is downloaded and
  decoded, with mode \<open>RGBA\<close>; the method keeps that mode, takes the JPEG branch because of
  the content type and the URL suffix, \<open>img.save\<close> raises because the JPEG writer does not
  accept the mode, and the method returns \<open>None\<close> without an output file.
\<close>

theorem alpha_image_as_jpeg_not_written:
  "map_option status_code (session_get images_env ''https://a.com/logo.jpg'') = Some 200
   \<and> map_option mode (image_open images_env [137, 80, 78, 71]) = Some ''RGBA''
   \<and> download_and_convert_image images_env ''https://a.com/logo.jpg'' ''/tmp/images''
        ''image_001_from_page_1'' = (None, [])"
  by code_simp

end
